theory Spec2Isabelle
  imports Main "HOL-Library.Char_ord" "HOL-Library.List_Lexorder" "HOL-Library.Sublist"
begin

section \<open>Text, lines and the page store\<close>

text \<open>
  Page texts are strings; a string is a list of 8-bit characters (the UTF-8 bytes of the
  Python \<open>str\<close>).  Every pattern literal of the bot is ASCII, the classes \<open>.\<close> and
  \<open>[^=]\<close> accept every byte of a multi-byte character, and byte-wise lexicographic order
  on UTF-8 agrees with code-point order, so nothing below depends on the difference.

  The wiki is a total map from page titles to page texts: \<open>pywikibot.Page(site, t).text\<close> of
  a page that does not exist is the empty string, and \<open>page.save\<close> replaces the whole text.
\<close>

abbreviation (input) nl :: char where
  "nl \<equiv> CHR 0x0A"

type_synonym store = "string \<Rightarrow> string"

definition empty_store :: store where
  "empty_store = (\<lambda>title. [])"

text \<open>
  \<open>text.split('\n')\<close>: a character other than the newline goes to the head of the first
  line of what follows.  The result is never empty (\<open>''.split('\n') == ['']\<close>), so the
  second case of the \<open>case\<close> is never taken.
\<close>

fun split_nl :: "string \<Rightarrow> string list" where
  "split_nl [] = [[]]"
| "split_nl (c # cs) =
     (if c = nl then [] # split_nl cs
      else (case split_nl cs of l # ls \<Rightarrow> (c # l) # ls | [] \<Rightarrow> [[c]]))"

text \<open>\<open>'\n'.join(lines)\<close>.\<close>

fun join_nl :: "string list \<Rightarrow> string" where
  "join_nl [] = []"
| "join_nl [l] = l"
| "join_nl (l # m # ls) = l @ nl # join_nl (m # ls)"

text \<open>\<open>_get_page_text\<close>: the text of a page as a list of lines.\<close>

definition get_page_text :: "store \<Rightarrow> string \<Rightarrow> string list" where
  "get_page_text st page_name = split_nl (st page_name)"

text \<open>Python truthiness of \<open>None\<close>-or-string and \<open>None\<close>-or-int values.\<close>

fun truthy_str :: "string option \<Rightarrow> bool" where
  "truthy_str None = False"
| "truthy_str (Some s) = (s \<noteq> [])"

fun truthy_nat :: "nat option \<Rightarrow> bool" where
  "truthy_nat None = False"
| "truthy_nat (Some n) = (n \<noteq> 0)"


section \<open>A backtracking matcher for the bot's regular expressions\<close>

text \<open>
  The regular expressions are matched the way Python's \<open>re\<close> does: left to right, every
  quantifier greedy, backtracking into the most recent choice first.  Each construct takes
  the matcher of what follows it (its continuation), so the first success found is the
  match \<open>re\<close> reports.

  \<open>strip_prefix p s\<close> matches the literal \<open>p\<close> at the head of \<open>s\<close>.
\<close>

fun strip_prefix :: "string \<Rightarrow> string \<Rightarrow> string option" where
  "strip_prefix [] s = Some s"
| "strip_prefix (p # ps) [] = None"
| "strip_prefix (p # ps) (c # cs) = (if p = c then strip_prefix ps cs else None)"

definition lit :: "string \<Rightarrow> (string \<Rightarrow> 'a option) \<Rightarrow> string \<Rightarrow> 'a option" where
  "lit p K s = (case strip_prefix p s of None \<Rightarrow> None | Some r \<Rightarrow> K r)"

text \<open>
  \<open>many P K acc s\<close> is \<open>[P]*\<close> followed by \<open>K\<close>: take one more character of the class
  \<open>P\<close> first (greedy), and fall back to stopping here.  \<open>acc\<close> is the text taken so far,
  handed to the continuation as the captured group.  \<open>many1\<close> is \<open>[P]+\<close>.
\<close>

fun many :: "(char \<Rightarrow> bool) \<Rightarrow> (string \<Rightarrow> string \<Rightarrow> 'a option) \<Rightarrow> string \<Rightarrow> string \<Rightarrow> 'a option" where
  "many P K acc [] = K acc []"
| "many P K acc (c # cs) =
     (if P c then (case many P K (acc @ [c]) cs of Some r \<Rightarrow> Some r | None \<Rightarrow> K acc (c # cs))
      else K acc (c # cs))"

fun many1 :: "(char \<Rightarrow> bool) \<Rightarrow> (string \<Rightarrow> string \<Rightarrow> 'a option) \<Rightarrow> string \<Rightarrow> string \<Rightarrow> 'a option" where
  "many1 P K acc [] = None"
| "many1 P K acc (c # cs) = (if P c then many P K (acc @ [c]) cs else None)"

text \<open>The class \<open>.\<close> (every character but the newline; no \<open>re.DOTALL\<close> is set).\<close>

definition dot :: "char \<Rightarrow> bool" where
  "dot c = (c \<noteq> nl)"

text \<open>
  \<open>re.search\<close>: the match at the leftmost position that has one.  None of the patterns
  searched for looks behind, so a match at a position depends on the suffix there only.
\<close>

fun search :: "(string \<Rightarrow> 'a option) \<Rightarrow> string \<Rightarrow> 'a option" where
  "search m [] = m []"
| "search m (c # cs) = (case m (c # cs) of Some r \<Rightarrow> Some r | None \<Rightarrow> search m cs)"


section \<open>Markers and headings\<close>

text \<open>\<open>list_content_start = \{\{ListGenBot-SourceStart\|(.+)\}\}\<close>; the result is group 1.\<close>

definition list_content_start :: "string \<Rightarrow> string option" where
  "list_content_start =
     lit ''{{ListGenBot-SourceStart|'' (many1 dot (\<lambda>g. lit ''}}'' (\<lambda>r. Some g)) [])"

definition find_list_content_start :: "string \<Rightarrow> string option" where
  "find_list_content_start line = search list_content_start line"

text \<open>\<open>list_content_end = \{\{ListGenBot-SourceEnd\}\}\<close>.\<close>

definition list_content_end :: "string \<Rightarrow> unit option" where
  "list_content_end = lit ''{{ListGenBot-SourceEnd}}'' (\<lambda>r. Some ())"

definition find_list_content_end :: "string \<Rightarrow> bool" where
  "find_list_content_end line = (search list_content_end line \<noteq> None)"

text \<open>
  \<open>title_search = ^(=+)([^=]*)(=+)[ ]?$\<close>, compiled without \<open>re.MULTILINE\<close>: \<open>^\<close> holds
  at position 0 only, so \<open>search\<close> has the one position to try, and \<open>$\<close> holds at the end
  of the string and before a newline that ends it.
\<close>

definition at_end :: "string \<Rightarrow> unit option" where
  "at_end s = (if s = [] \<or> s = [nl] then Some () else None)"

definition opt_space :: "(string \<Rightarrow> 'a option) \<Rightarrow> string \<Rightarrow> 'a option" where
  "opt_space K s =
     (case s of
        [] \<Rightarrow> K []
      | c # cs \<Rightarrow>
          (if c = CHR '' '' then (case K cs of Some r \<Rightarrow> Some r | None \<Rightarrow> K (c # cs))
           else K (c # cs)))"

definition is_eq :: "char \<Rightarrow> bool" where
  "is_eq c = (c = CHR ''='')"

definition not_eq :: "char \<Rightarrow> bool" where
  "not_eq c = (c \<noteq> CHR ''='')"

definition title_search :: "string \<Rightarrow> unit option" where
  "title_search =
     many1 is_eq (\<lambda>g1. many not_eq (\<lambda>g2. many1 is_eq (\<lambda>g3. opt_space at_end) []) []) []"

definition find_title :: "string \<Rightarrow> bool" where
  "find_title line = (title_search line \<noteq> None)"


section \<open>The aggregator: \<open>_add_to_list\<close>\<close>

text \<open>
  The loop that looks for the section.  \<open>line_no\<close> counts from 0; \<open>start\<close> is \<open>None\<close> or a
  line number.  The test \<open>elif start and ...\<close> is Python truthiness, so a \<open>start\<close> of 0
  counts as not set.  The result is \<open>(start, end)\<close>.  The branch that sets \<open>end\<close> runs
  with \<open>0 < start < line_no\<close>, so \<open>line_no - 1\<close> never goes below 0.
\<close>

fun section_loop :: "string \<Rightarrow> nat \<Rightarrow> nat option \<Rightarrow> string list \<Rightarrow> nat option \<times> nat option" where
  "section_loop sec line_no start [] = (start, None)"
| "section_loop sec line_no start (line # rest) =
     (if line = sec then section_loop sec (line_no + 1) (Some line_no) rest
      else if truthy_nat start \<and> find_title line then (start, Some (line_no - 1))
      else section_loop sec (line_no + 1) start rest)"

text \<open>
  The deletion.  \<open>del page_lines[start:end + 1]\<close> runs when both are set; otherwise, when
  \<open>end is None\<close>, \<open>del page_lines[start:]\<close> runs, and with \<open>start\<close> still \<open>None\<close> that slice
  is the whole list.
\<close>

definition delete_section :: "nat option \<Rightarrow> nat option \<Rightarrow> string list \<Rightarrow> string list" where
  "delete_section start end page_lines =
     (case (start, end) of
        (Some s, Some e) \<Rightarrow> take s page_lines @ drop (e + 1) page_lines
      | (Some s, None) \<Rightarrow> take s page_lines
      | (None, None) \<Rightarrow> []
      | (None, Some e) \<Rightarrow> page_lines)"

definition add_to_list_lines :: "string list \<Rightarrow> string \<Rightarrow> string list \<Rightarrow> string list" where
  "add_to_list_lines content sec page_lines =
     (let (start, end) = section_loop sec 0 None page_lines;
          page_lines1 = delete_section start end page_lines
      in if content \<noteq> [] then page_lines1 @ [sec] @ content else page_lines1)"

definition add_to_list :: "string list \<Rightarrow> string \<Rightarrow> string \<Rightarrow> store \<Rightarrow> store" where
  "add_to_list content section_title list_name st =
     (let sec = ''=='' @ section_title @ ''=='';
          page_name = ''ListGenBot '' @ list_name;
          page_lines = get_page_text st page_name
      in st(page_name := join_nl (add_to_list_lines content sec page_lines)))"


section \<open>The scanner loop of \<open>main_function\<close>\<close>

text \<open>
  The loop state is \<open>(in_list, list_content)\<close> together with the wiki, which
  \<open>_add_to_list\<close> writes to.  \<open>if in_list:\<close> is Python truthiness.
\<close>

type_synonym scan_state = "string option \<times> string list \<times> store"

definition scan_step :: "string \<Rightarrow> scan_state \<Rightarrow> string \<Rightarrow> scan_state" where
  "scan_step page s line =
     (case s of (in_list, list_content, st) \<Rightarrow>
        if truthy_str in_list then
          (if find_list_content_end line
           then (None, [], add_to_list list_content page (the in_list) st)
           else if \<not> find_title line then (in_list, list_content @ [line], st)
           else (in_list, list_content, st))
        else (find_list_content_start line, list_content, st))"

definition scan_page :: "string \<Rightarrow> store \<Rightarrow> string list \<Rightarrow> scan_state" where
  "scan_page page st page_lines = foldl (scan_step page) (None, [], st) page_lines"

text \<open>
  The same loop, recording each call of \<open>_add_to_list\<close> (its \<open>content\<close> and \<open>list_name\<close>;
  \<open>section\<close> is always the page) instead of running it: the content blocks the scan emits.
\<close>

fun block_calls :: "string option \<Rightarrow> string list \<Rightarrow> string list \<Rightarrow> (string list \<times> string) list" where
  "block_calls in_list list_content [] = []"
| "block_calls in_list list_content (line # rest) =
     (if truthy_str in_list then
        (if find_list_content_end line
         then (list_content, the in_list) # block_calls None [] rest
         else if \<not> find_title line then block_calls in_list (list_content @ [line]) rest
         else block_calls in_list list_content rest)
      else block_calls (find_list_content_start line) list_content rest)"


section \<open>The renderer: \<open>list_render_template\<close> and \<open>_render_list\<close>\<close>

text \<open>
  \<open>list_render_template =
  (\{\{ListGenBot-List(.*)Start\|(.+)\}\})(?:.*\n)+.*(\{\{ListGenBot-List(.*)End\}\})\<close>.
  \<open>re.MULTILINE\<close> changes \<open>^\<close> and \<open>$\<close> only, and the pattern has neither.

  \<open>lines_plus K\<close> is \<open>(?:.*\n)+\<close> followed by \<open>K\<close>.  In \<open>.*\n\<close> the \<open>.*\<close> cannot pass a
  newline and the \<open>\n\<close> needs one, so an iteration takes the rest of the line and its
  newline; after each iteration another one is tried first (greedy), then \<open>K\<close>.
\<close>

fun lines_plus :: "(string \<Rightarrow> 'a option) \<Rightarrow> string \<Rightarrow> 'a option" where
  "lines_plus K [] = None"
| "lines_plus K (c # cs) =
     (if c = nl then (case lines_plus K cs of Some r \<Rightarrow> Some r | None \<Rightarrow> K cs)
      else lines_plus K cs)"

text \<open>The five groups of a match, in the order of \<open>m.groups()\<close>.\<close>

type_synonym groups = "string \<times> string \<times> string \<times> string \<times> string"

text \<open>\<open>.*(\{\{ListGenBot-List(.*)End\}\})\<close>: groups 4 and 5 and the text after the match.\<close>

definition close_marker :: "string \<Rightarrow> (string \<times> string \<times> string) option" where
  "close_marker =
     many dot (\<lambda>skipped. lit ''{{ListGenBot-List'' (many dot (\<lambda>g5. lit ''End}}''
       (\<lambda>rest. Some (''{{ListGenBot-List'' @ g5 @ ''End}}'', g5, rest))) [])) []"

definition list_render_template :: "string \<Rightarrow> (groups \<times> string) option" where
  "list_render_template =
     lit ''{{ListGenBot-List'' (many dot (\<lambda>g2. lit ''Start|'' (many1 dot (\<lambda>g3. lit ''}}''
       (lines_plus (\<lambda>u. case close_marker u of
           None \<Rightarrow> None
         | Some (g4, g5, rest) \<Rightarrow>
             Some ((''{{ListGenBot-List'' @ g2 @ ''Start|'' @ g3 @ ''}}'', g2, g3, g4, g5), rest))))
       [])) [])"

text \<open>\<open>line.strip('=')\<close>.\<close>

definition strip_eq :: "string \<Rightarrow> string" where
  "strip_eq line = rev (dropWhile is_eq (rev (dropWhile is_eq line)))"

text \<open>\<open>_render_list\<close>: the replacement of a match, computed from its groups.\<close>

definition render_list :: "store \<Rightarrow> groups \<Rightarrow> string" where
  "render_list st m =
     (case m of (beginning_text, start, list_name, ending_text, end) \<Rightarrow>
        let page_name = ''ListGenBot '' @ list_name;
            page_lines =
              (if start = end then
                 (if start = ''Sectioned'' then
                    map (\<lambda>line. if \<not> find_title line then line
                                 else ''===([['' @ strip_eq line @ '']])==='')
                      (get_page_text st page_name)
                  else if start = ''Alphabetical'' then
                    sort (filter (\<lambda>x. \<not> find_title x) (get_page_text st page_name))
                  else [])
               else []);
            list_text = join_nl page_lines
        in beginning_text @ [nl] @ list_text @ [nl] @ ending_text)"


section \<open>Properties of the matcher\<close>

lemma strip_prefix_Some: "strip_prefix p s = Some r \<longleftrightarrow> s = p @ r"
  by (induction p s rule: strip_prefix.induct) auto

lemma strip_prefix_append: "strip_prefix p (p @ r) = Some r"
  by (simp add: strip_prefix_Some)

lemma lit_append: "lit p K (p @ r) = K r"
  by (simp add: lit_def strip_prefix_append)

lemma lit_Some: "lit p K s = Some x \<longleftrightarrow> (\<exists>r. s = p @ r \<and> K r = Some x)"
  by (cases "strip_prefix p s") (auto simp: lit_def strip_prefix_Some strip_prefix_append)

lemma lit_None: "lit p K s = None \<longleftrightarrow> (\<forall>r. s = p @ r \<longrightarrow> K r = None)"
  by (cases "strip_prefix p s") (auto simp: lit_def strip_prefix_Some strip_prefix_append)

lemma many_None:
  "many P K acc s = None \<longleftrightarrow> (\<forall>a t. s = a @ t \<and> list_all P a \<longrightarrow> K (acc @ a) t = None)"
proof (induction s arbitrary: acc)
  case Nil
  show ?case by simp
next
  case (Cons c cs)
  show ?case
  proof (cases "P c")
    case False
    have only: "a = []" if "c # cs = a @ t" "list_all P a" for a t
      using that False by (cases a) auto
    show ?thesis
    proof
      assume "many P K acc (c # cs) = None"
      then have k: "K acc (c # cs) = None" using False by simp
      show "\<forall>a t. c # cs = a @ t \<and> list_all P a \<longrightarrow> K (acc @ a) t = None"
      proof (intro allI impI)
        fix a t assume h: "c # cs = a @ t \<and> list_all P a"
        then have "a = []" using only by blast
        then show "K (acc @ a) t = None" using h k by simp
      qed
    next
      assume h: "\<forall>a t. c # cs = a @ t \<and> list_all P a \<longrightarrow> K (acc @ a) t = None"
      have "c # cs = [] @ (c # cs) \<and> list_all P []" by simp
      then have "K (acc @ []) (c # cs) = None" using h by blast
      then show "many P K acc (c # cs) = None" using False by simp
    qed
  next
    case True
    have split: "\<And>Q. (\<forall>a t. c # cs = a @ t \<and> list_all P a \<longrightarrow> Q a t) \<longleftrightarrow>
        (Q [] (c # cs) \<and> (\<forall>a t. cs = a @ t \<and> list_all P a \<longrightarrow> Q (c # a) t))"
      using True by (auto simp: Cons_eq_append_conv)
    show ?thesis
      using True Cons.IH [of "acc @ [c]"]
      by (simp add: split split: option.splits) auto
  qed
qed

lemma many_Some_D:
  "many P K acc s = Some x \<Longrightarrow>
     \<exists>a t. s = a @ t \<and> list_all P a \<and> K (acc @ a) t = Some x \<and>
       (\<forall>a' t'. s = a' @ t' \<and> list_all P a' \<and> length a < length a' \<longrightarrow> K (acc @ a') t' = None)"
proof (induction s arbitrary: acc)
  case Nil
  then show ?case by simp
next
  case (Cons c cs)
  show ?case
  proof (cases "P c \<and> many P K (acc @ [c]) cs \<noteq> None")
    case True
    then have s: "many P K (acc @ [c]) cs = Some x" using Cons.prems by (auto split: option.splits)
    from Cons.IH [OF s] obtain a t where at: "cs = a @ t" "list_all P a"
      "K (acc @ c # a) t = Some x"
      and mx: "\<forall>a' t'. cs = a' @ t' \<and> list_all P a' \<and> length a < length a' \<longrightarrow> K (acc @ c # a') t' = None"
      by auto
    have "\<forall>a' t'. c # cs = a' @ t' \<and> list_all P a' \<and> length (c # a) < length a' \<longrightarrow> K (acc @ a') t' = None"
      using mx by (auto simp: Cons_eq_append_conv)
    then show ?thesis using at True by (intro exI [of _ "c # a"] exI [of _ t]) auto
  next
    case False
    then have k: "K acc (c # cs) = Some x" using Cons.prems by (auto split: option.splits if_splits)
    have "\<forall>a' t'. c # cs = a' @ t' \<and> list_all P a' \<and> 0 < length a' \<longrightarrow> K (acc @ a') t' = None"
    proof (intro allI impI)
      fix a' t' assume h: "c # cs = a' @ t' \<and> list_all P a' \<and> 0 < length a'"
      then obtain a2 where a2: "a' = c # a2" "cs = a2 @ t'" "P c" "list_all P a2"
        by (cases a') auto
      with False have "many P K (acc @ [c]) cs = None" by simp
      then show "K (acc @ a') t' = None" using a2 by (simp add: many_None)
    qed
    then show ?thesis using k by (intro exI [of _ "[]"] exI [of _ "c # cs"]) auto
  qed
qed

lemma many_Some_I:
  "s = a @ t \<Longrightarrow> list_all P a \<Longrightarrow> K (acc @ a) t = Some x \<Longrightarrow>
   (\<forall>a' t'. s = a' @ t' \<and> list_all P a' \<and> length a < length a' \<longrightarrow> K (acc @ a') t' = None) \<Longrightarrow>
   many P K acc s = Some x"
proof (induction a arbitrary: acc s)
  case Nil
  show ?case
  proof (cases s)
    case Nil
    then show ?thesis using Nil.prems by simp
  next
    case (Cons c cs)
    show ?thesis
    proof (cases "P c")
      case True
      have "many P K (acc @ [c]) cs = None"
        unfolding many_None
      proof (intro allI impI)
        fix a2 t2 assume "cs = a2 @ t2 \<and> list_all P a2"
        then have "s = (c # a2) @ t2 \<and> list_all P (c # a2) \<and> length ([]::string) < length (c # a2)"
          using Cons True by simp
        then have "K (acc @ (c # a2)) t2 = None" using Nil.prems(4) by blast
        then show "K ((acc @ [c]) @ a2) t2 = None" by simp
      qed
      then have "many P K acc (c # cs) = K acc (c # cs)" using True by simp
      moreover have "K acc (c # cs) = Some x" using Nil.prems(1,3) Cons by simp
      ultimately show ?thesis using Cons by simp
    next
      case False
      then have "many P K acc (c # cs) = K acc (c # cs)" by simp
      moreover have "K acc (c # cs) = Some x" using Nil.prems(1,3) Cons by simp
      ultimately show ?thesis using Cons by simp
    qed
  qed
next
  case (Cons c a)
  then obtain s: "s = c # (a @ t)" and pc: "P c" and pa: "list_all P a" by simp
  have "many P K (acc @ [c]) (a @ t) = Some x"
  proof (rule Cons.IH [OF refl pa])
    show "K ((acc @ [c]) @ a) t = Some x" using Cons.prems(3) by simp
    show "\<forall>a' t'. a @ t = a' @ t' \<and> list_all P a' \<and> length a < length a' \<longrightarrow> K ((acc @ [c]) @ a') t' = None"
    proof (intro allI impI)
      fix a' t' assume h: "a @ t = a' @ t' \<and> list_all P a' \<and> length a < length a'"
      then have "s = (c # a') @ t' \<and> list_all P (c # a') \<and> length (c # a) < length (c # a')"
        using s pc by simp
      then have "K (acc @ (c # a')) t' = None" using Cons.prems(4) by blast
      then show "K ((acc @ [c]) @ a') t' = None" by simp
    qed
  qed
  then show ?case using s pc by simp
qed

lemma many_cong_splits:
  "(\<And>a t. s = a @ t \<Longrightarrow> list_all P a \<Longrightarrow> K (acc @ a) t = K' (acc @ a) t) \<Longrightarrow>
   many P K acc s = many P K' acc s"
proof (induction s arbitrary: acc)
  case Nil
  then show ?case by simp
next
  case (Cons c cs)
  have here: "K acc (c # cs) = K' acc (c # cs)" using Cons.prems [of "[]" "c # cs"] by simp
  show ?case
  proof (cases "P c")
    case True
    have "many P K (acc @ [c]) cs = many P K' (acc @ [c]) cs"
    proof (rule Cons.IH)
      fix a t assume "cs = a @ t" "list_all P a"
      then show "K ((acc @ [c]) @ a) t = K' ((acc @ [c]) @ a) t"
        using Cons.prems [of "c # a" t] True by simp
    qed
    then show ?thesis using here by (simp split: option.splits)
  next
    case False
    then show ?thesis using here by simp
  qed
qed

lemma many1_cong_splits:
  "(\<And>a t. s = a @ t \<Longrightarrow> a \<noteq> [] \<Longrightarrow> list_all P a \<Longrightarrow> K (acc @ a) t = K' (acc @ a) t) \<Longrightarrow>
   many1 P K acc s = many1 P K' acc s"
proof (cases s)
  case Nil
  then show ?thesis by simp
next
  case (Cons c cs)
  assume h: "\<And>a t. s = a @ t \<Longrightarrow> a \<noteq> [] \<Longrightarrow> list_all P a \<Longrightarrow> K (acc @ a) t = K' (acc @ a) t"
  show ?thesis
  proof (cases "P c")
    case True
    have "many P K (acc @ [c]) cs = many P K' (acc @ [c]) cs"
    proof (rule many_cong_splits)
      fix a t assume "cs = a @ t" "list_all P a"
      then show "K ((acc @ [c]) @ a) t = K' ((acc @ [c]) @ a) t"
        using h [of "c # a" t] True Cons by simp
    qed
    then show ?thesis using Cons by simp
  next
    case False
    then show ?thesis using Cons by simp
  qed
qed

lemma many1_None:
  "many1 P K acc s = None \<longleftrightarrow>
     (\<forall>a t. s = a @ t \<and> a \<noteq> [] \<and> list_all P a \<longrightarrow> K (acc @ a) t = None)"
proof (cases s)
  case Nil
  then show ?thesis by simp
next
  case (Cons c cs)
  show ?thesis
  proof (cases "P c")
    case True
    have "(\<forall>a t. c # cs = a @ t \<and> a \<noteq> [] \<and> list_all P a \<longrightarrow> K (acc @ a) t = None) \<longleftrightarrow>
          (\<forall>a t. cs = a @ t \<and> list_all P a \<longrightarrow> K ((acc @ [c]) @ a) t = None)"
      using True by (auto simp: Cons_eq_append_conv)
    then show ?thesis using Cons True by (simp add: many_None)
  next
    case False
    have "\<And>a t. c # cs = a @ t \<and> a \<noteq> [] \<and> list_all P a \<Longrightarrow> False"
      using False by (case_tac a) auto
    then show ?thesis using Cons False by auto
  qed
qed

lemma many1_Some_D:
  assumes "many1 P K acc s = Some x"
  shows "\<exists>a t. s = a @ t \<and> a \<noteq> [] \<and> list_all P a \<and> K (acc @ a) t = Some x \<and>
       (\<forall>a' t'. s = a' @ t' \<and> list_all P a' \<and> length a < length a' \<longrightarrow> K (acc @ a') t' = None)"
proof -
  from assms obtain c cs where s: "s = c # cs" and pc: "P c"
    and st: "many P K (acc @ [c]) cs = Some x"
    by (cases s) (auto split: if_splits)
  from many_Some_D [OF st] obtain a t where at: "cs = a @ t" "list_all P a"
    "K (acc @ c # a) t = Some x"
    and mx: "\<forall>a' t'. cs = a' @ t' \<and> list_all P a' \<and> length a < length a' \<longrightarrow> K (acc @ c # a') t' = None"
    by auto
  have "\<forall>a' t'. s = a' @ t' \<and> list_all P a' \<and> length (c # a) < length a' \<longrightarrow> K (acc @ a') t' = None"
    using mx s by (auto simp: Cons_eq_append_conv)
  then show ?thesis using at s pc by (intro exI [of _ "c # a"] exI [of _ t]) auto
qed

lemma many1_Some_I:
  assumes "s = a @ t" "a \<noteq> []" "list_all P a" "K (acc @ a) t = Some x"
    "\<forall>a' t'. s = a' @ t' \<and> list_all P a' \<and> length a < length a' \<longrightarrow> K (acc @ a') t' = None"
  shows "many1 P K acc s = Some x"
proof -
  from assms obtain c a2 where a: "a = c # a2" "P c" "list_all P a2" by (cases a) auto
  have "many P K (acc @ [c]) (a2 @ t) = Some x"
  proof (rule many_Some_I [OF refl a(3)])
    show "K ((acc @ [c]) @ a2) t = Some x" using assms(4) a by simp
    show "\<forall>a' t'. a2 @ t = a' @ t' \<and> list_all P a' \<and> length a2 < length a' \<longrightarrow> K ((acc @ [c]) @ a') t' = None"
    proof (intro allI impI)
      fix a' t' assume h: "a2 @ t = a' @ t' \<and> list_all P a' \<and> length a2 < length a'"
      then have "s = (c # a') @ t' \<and> list_all P (c # a') \<and> length a < length (c # a')"
        using assms(1) a by simp
      then have "K (acc @ (c # a')) t' = None" using assms(5) by blast
      then show "K ((acc @ [c]) @ a') t' = None" by simp
    qed
  qed
  then show ?thesis using assms(1) a by simp
qed

lemma lit_cong_suffix: "(\<And>r. s = p @ r \<Longrightarrow> K r = K' r) \<Longrightarrow> lit p K s = lit p K' s"
  by (cases "strip_prefix p s") (auto simp: lit_def strip_prefix_Some strip_prefix_append)

lemma lines_plus_map: "lines_plus (\<lambda>u. map_option h (K u)) s = map_option h (lines_plus K s)"
  by (induction s) (auto split: option.splits)

lemma lines_plus_skip: "list_all dot x \<Longrightarrow> lines_plus K (x @ t) = lines_plus K t"
  by (induction x) (auto simp: dot_def)

lemma lines_plus_None_suffix: "lines_plus K (a @ t) = None \<Longrightarrow> lines_plus K t = None"
  by (induction a) (auto split: option.splits if_splits)

lemma lines_plus_Some_D:
  "lines_plus K s = Some r \<Longrightarrow> \<exists>p u. s = p @ nl # u \<and> K u = Some r \<and> lines_plus K u = None"
proof (induction s)
  case Nil
  then show ?case by simp
next
  case (Cons c cs)
  show ?case
  proof (cases "lines_plus K cs")
    case None
    then have "c = nl" "K cs = Some r" using Cons.prems by (auto split: if_splits)
    then show ?thesis using None by (intro exI [of _ "[]"] exI [of _ cs]) simp
  next
    case (Some r')
    then have "lines_plus K cs = Some r" using Cons.prems by (auto split: if_splits)
    from Cons.IH [OF this] obtain p u where "cs = p @ nl # u" "K u = Some r" "lines_plus K u = None"
      by auto
    then show ?thesis by (intro exI [of _ "c # p"] exI [of _ u]) simp
  qed
qed

lemma lines_plus_Some_I:
  "K u = Some r \<Longrightarrow> lines_plus K u = None \<Longrightarrow> lines_plus K (p @ nl # u) = Some r"
  by (induction p) auto


subsection \<open>The two halves of the render pattern\<close>

text \<open>
  For the proofs, the pattern is cut in two.  \<open>open_pat p1 p2 p3 K\<close> is
  \<open>p1(.*)p2(.+)p3\<close> followed by \<open>K\<close>, which receives the two groups;
  \<open>close_pat q1 q2\<close> is \<open>.*(q1(.*)q2)\<close>.  \<open>open_marker\<close> is the opening marker of
  \<open>list_render_template\<close> with nothing after it: it returns groups 2 and 3 and the
  text after group 1.
\<close>

definition open_pat :: "string \<Rightarrow> string \<Rightarrow> string \<Rightarrow> (string \<Rightarrow> string \<Rightarrow> string \<Rightarrow> 'a option) \<Rightarrow> string \<Rightarrow> 'a option" where
  "open_pat p1 p2 p3 K = lit p1 (many dot (\<lambda>g2. lit p2 (many1 dot (\<lambda>g3. lit p3 (K g2 g3)) [])) [])"

definition close_pat :: "string \<Rightarrow> string \<Rightarrow> string \<Rightarrow> (string \<times> string \<times> string) option" where
  "close_pat q1 q2 =
     many dot (\<lambda>skipped. lit q1 (many dot (\<lambda>g5. lit q2 (\<lambda>rest. Some (q1 @ g5 @ q2, g5, rest))) [])) []"

definition open_marker :: "string \<Rightarrow> (string \<times> string \<times> string) option" where
  "open_marker = open_pat ''{{ListGenBot-List'' ''Start|'' ''}}'' (\<lambda>g2 g3 s3. Some (g2, g3, s3))"

lemma lit_bind: "lit p (\<lambda>r. Option.bind (K r) h) s = Option.bind (lit p K s) h"
  by (simp add: lit_def split: option.splits)

lemma many_bind:
  assumes "(\<forall>y. h y = None) \<or> (\<forall>y. h y \<noteq> None)"
  shows "many P (\<lambda>g t. Option.bind (K g t) h) acc s = Option.bind (many P K acc s) h"
proof (induction s arbitrary: acc)
  case Nil
  show ?case by simp
next
  case (Cons c cs)
  show ?case
  proof (cases "P c")
    case False
    then show ?thesis by simp
  next
    case True
    show ?thesis
    proof (cases "many P K (acc @ [c]) cs")
      case None
      then show ?thesis using True Cons.IH [of "acc @ [c]"] by simp
    next
      case (Some y)
      show ?thesis
      proof (cases "h y")
        case None
        then have "\<forall>y. h y = None" using assms by metis
        then have "\<And>x. Option.bind x h = None" by (case_tac x) auto
        then show ?thesis using True Cons.IH [of "acc @ [c]"] by simp
      next
        case (Some z)
        then show ?thesis using True Cons.IH [of "acc @ [c]"] \<open>many P K (acc @ [c]) cs = Some y\<close> by simp
      qed
    qed
  qed
qed

lemma many1_bind:
  assumes "(\<forall>y. h y = None) \<or> (\<forall>y. h y \<noteq> None)"
  shows "many1 P (\<lambda>g t. Option.bind (K g t) h) acc s = Option.bind (many1 P K acc s) h"
  by (cases s) (simp_all add: many_bind [OF assms])

lemma open_pat_bind:
  assumes "(\<forall>y. h y = None) \<or> (\<forall>y. h y \<noteq> None)"
  shows "open_pat p1 p2 p3 (\<lambda>g2 g3 s3. Option.bind (K g2 g3 s3) h) s = Option.bind (open_pat p1 p2 p3 K s) h"
proof -
  have a: "(\<lambda>g3. lit p3 (\<lambda>s3. Option.bind (K g2 g3 s3) h)) =
           (\<lambda>g3 t. Option.bind (lit p3 (K g2 g3) t) h)" for g2
    by (intro ext) (rule lit_bind)
  have b: "many1 dot (\<lambda>g3. lit p3 (\<lambda>s3. Option.bind (K g2 g3 s3) h)) [] =
           (\<lambda>t. Option.bind (many1 dot (\<lambda>g3. lit p3 (K g2 g3)) [] t) h)" for g2
    unfolding a by (intro ext) (rule many1_bind [OF assms])
  have c: "(\<lambda>g2. lit p2 (many1 dot (\<lambda>g3. lit p3 (\<lambda>s3. Option.bind (K g2 g3 s3) h)) [])) =
           (\<lambda>g2 t. Option.bind (lit p2 (many1 dot (\<lambda>g3. lit p3 (K g2 g3)) []) t) h)"
    unfolding b by (intro ext) (rule lit_bind)
  have d: "many dot (\<lambda>g2. lit p2 (many1 dot (\<lambda>g3. lit p3 (\<lambda>s3. Option.bind (K g2 g3 s3) h)) [])) [] =
           (\<lambda>t. Option.bind (many dot (\<lambda>g2. lit p2 (many1 dot (\<lambda>g3. lit p3 (K g2 g3)) [])) [] t) h)"
    unfolding c by (intro ext) (rule many_bind [OF assms])
  show ?thesis unfolding open_pat_def d by (rule lit_bind)
qed

lemma open_pat_cong:
  assumes "\<And>g2 g3 s3. s = p1 @ g2 @ p2 @ g3 @ p3 @ s3 \<Longrightarrow> list_all dot g2 \<Longrightarrow> list_all dot g3 \<Longrightarrow>
     K g2 g3 s3 = K' g2 g3 s3"
  shows "open_pat p1 p2 p3 K s = open_pat p1 p2 p3 K' s"
  unfolding open_pat_def
proof (rule lit_cong_suffix)
  fix s1 assume s1: "s = p1 @ s1"
  show "many dot (\<lambda>g2. lit p2 (many1 dot (\<lambda>g3. lit p3 (K g2 g3)) [])) [] s1 =
        many dot (\<lambda>g2. lit p2 (many1 dot (\<lambda>g3. lit p3 (K' g2 g3)) [])) [] s1"
  proof (rule many_cong_splits)
    fix a t assume at: "s1 = a @ t" "list_all dot a"
    show "lit p2 (many1 dot (\<lambda>g3. lit p3 (K ([] @ a) g3)) []) t =
          lit p2 (many1 dot (\<lambda>g3. lit p3 (K' ([] @ a) g3)) []) t"
    proof (rule lit_cong_suffix)
      fix s2 assume s2: "t = p2 @ s2"
      show "many1 dot (\<lambda>g3. lit p3 (K ([] @ a) g3)) [] s2 = many1 dot (\<lambda>g3. lit p3 (K' ([] @ a) g3)) [] s2"
      proof (rule many1_cong_splits)
        fix b t2 assume bt: "s2 = b @ t2" "b \<noteq> []" "list_all dot b"
        show "lit p3 (K ([] @ a) ([] @ b)) t2 = lit p3 (K' ([] @ a) ([] @ b)) t2"
        proof (rule lit_cong_suffix)
          fix s3 assume s3: "t2 = p3 @ s3"
          have "s = p1 @ a @ p2 @ b @ p3 @ s3" using s1 at s2 bt s3 by simp
          then show "K ([] @ a) ([] @ b) s3 = K' ([] @ a) ([] @ b) s3"
            using assms at bt by simp
        qed
      qed
    qed
  qed
qed

lemma close_marker_pat: "close_marker = close_pat ''{{ListGenBot-List'' ''End}}''"
  by (simp add: close_marker_def close_pat_def)

text \<open>The result of a match, put together from the two halves.\<close>

definition assemble :: "(string \<times> string \<times> string) option \<Rightarrow> string \<times> string \<times> string \<Rightarrow> (groups \<times> string) option" where
  "assemble W y =
     (case y of (g2, g3, s3) \<Rightarrow>
        (case W of
           None \<Rightarrow> None
         | Some (g4, g5, rest) \<Rightarrow>
             Some ((''{{ListGenBot-List'' @ g2 @ ''Start|'' @ g3 @ ''}}'', g2, g3, g4, g5), rest)))"

lemma assemble_uniform: "(\<forall>y. assemble W y = None) \<or> (\<forall>y. assemble W y \<noteq> None)"
  by (cases W) (auto simp: assemble_def split: prod.splits)

lemma list_render_template_pat:
  "list_render_template =
     open_pat ''{{ListGenBot-List'' ''Start|'' ''}}''
       (\<lambda>g2 g3 s3. Option.bind (Some (g2, g3, s3)) (assemble (lines_plus close_marker s3)))"
proof -
  have "lines_plus (\<lambda>u. case close_marker u of None \<Rightarrow> None
          | Some (g4, g5, rest) \<Rightarrow>
              Some ((''{{ListGenBot-List'' @ g2 @ ''Start|'' @ g3 @ ''}}'', g2, g3, g4, g5), rest)) =
        (\<lambda>s3. Option.bind (Some (g2, g3, s3)) (assemble (lines_plus close_marker s3)))" for g2 g3
  proof (rule ext)
    fix s3
    have "(\<lambda>u. case close_marker u of None \<Rightarrow> None
          | Some (g4, g5, rest) \<Rightarrow>
              Some ((''{{ListGenBot-List'' @ g2 @ ''Start|'' @ g3 @ ''}}'', g2, g3, g4, g5), rest)) =
          (\<lambda>u. map_option (\<lambda>(g4, g5, rest).
              ((''{{ListGenBot-List'' @ g2 @ ''Start|'' @ g3 @ ''}}'', g2, g3, g4, g5), rest)) (close_marker u))"
      by (auto simp: fun_eq_iff split: option.splits)
    then show "lines_plus (\<lambda>u. case close_marker u of None \<Rightarrow> None
          | Some (g4, g5, rest) \<Rightarrow>
              Some ((''{{ListGenBot-List'' @ g2 @ ''Start|'' @ g3 @ ''}}'', g2, g3, g4, g5), rest)) s3 =
        Option.bind (Some (g2, g3, s3)) (assemble (lines_plus close_marker s3))"
      unfolding lines_plus_map
      by (cases "lines_plus close_marker s3") (auto simp: assemble_def lines_plus_map)
  qed
  then show ?thesis
    unfolding list_render_template_def open_pat_def by (simp only: )
qed

lemma dot_lits: "list_all dot ''{{ListGenBot-List''" "list_all dot ''Start|''" "list_all dot ''}}''"
  "list_all dot ''End}}''"
  by (simp_all add: dot_def)

lemma list_render_template_factor:
  "list_render_template s = Option.bind (open_marker s) (assemble (lines_plus close_marker s))"
proof -
  let ?W = "lines_plus close_marker s"
  have "list_render_template s =
     open_pat ''{{ListGenBot-List'' ''Start|'' ''}}''
       (\<lambda>g2 g3 s3. Option.bind (Some (g2, g3, s3)) (assemble ?W)) s"
    unfolding list_render_template_pat
  proof (rule open_pat_cong)
    fix g2 g3 s3
    assume s: "s = ''{{ListGenBot-List'' @ g2 @ ''Start|'' @ g3 @ ''}}'' @ s3"
      and g: "list_all dot g2" "list_all dot g3"
    have "list_all dot (''{{ListGenBot-List'' @ g2 @ ''Start|'' @ g3 @ ''}}'')"
      using g dot_lits by simp
    then have "lines_plus close_marker ((''{{ListGenBot-List'' @ g2 @ ''Start|'' @ g3 @ ''}}'') @ s3) =
       lines_plus close_marker s3"
      by (rule lines_plus_skip)
    then have "lines_plus close_marker s3 = ?W" using s by simp
    then show "Option.bind (Some (g2, g3, s3)) (assemble (lines_plus close_marker s3)) =
          Option.bind (Some (g2, g3, s3)) (assemble ?W)" by simp
  qed
  also have "\<dots> = Option.bind (open_marker s) (assemble ?W)"
    unfolding open_marker_def by (rule open_pat_bind [OF assemble_uniform])
  finally show ?thesis .
qed


subsection \<open>The opening marker\<close>

lemma open_inner_None:
  "lit p2 (many1 dot (\<lambda>g3. lit p3 (\<lambda>s3. Some (a, g3, s3))) []) t = None \<longleftrightarrow>
     \<not> (\<exists>b z. t = p2 @ b @ p3 @ z \<and> b \<noteq> [] \<and> list_all dot b)"
proof
  assume n: "lit p2 (many1 dot (\<lambda>g3. lit p3 (\<lambda>s3. Some (a, g3, s3))) []) t = None"
  show "\<not> (\<exists>b z. t = p2 @ b @ p3 @ z \<and> b \<noteq> [] \<and> list_all dot b)"
  proof
    assume "\<exists>b z. t = p2 @ b @ p3 @ z \<and> b \<noteq> [] \<and> list_all dot b"
    then obtain b z where t: "t = p2 @ b @ p3 @ z" and b: "b \<noteq> []" "list_all dot b" by blast
    from n t have "many1 dot (\<lambda>g3. lit p3 (\<lambda>s3. Some (a, g3, s3))) [] (b @ p3 @ z) = None"
      by (simp add: lit_append)
    then have "lit p3 (\<lambda>s3. Some (a, [] @ b, s3)) (p3 @ z) = None"
      unfolding many1_None using b by blast
    then show False by (simp add: lit_append)
  qed
next
  assume nex: "\<not> (\<exists>b z. t = p2 @ b @ p3 @ z \<and> b \<noteq> [] \<and> list_all dot b)"
  show "lit p2 (many1 dot (\<lambda>g3. lit p3 (\<lambda>s3. Some (a, g3, s3))) []) t = None"
    unfolding lit_None [of p2]
  proof (intro allI impI)
    fix r assume r: "t = p2 @ r"
    show "many1 dot (\<lambda>g3. lit p3 (\<lambda>s3. Some (a, g3, s3))) [] r = None"
      unfolding many1_None
    proof (intro allI impI)
      fix b t2 assume h: "r = b @ t2 \<and> b \<noteq> [] \<and> list_all dot b"
      show "lit p3 (\<lambda>s3. Some (a, [] @ b, s3)) t2 = None"
        unfolding lit_None
      proof (intro allI impI)
        fix s3 assume "t2 = p3 @ s3"
        then have "t = p2 @ b @ p3 @ s3 \<and> b \<noteq> [] \<and> list_all dot b" using r h by simp
        then show "Some (a, [] @ b, s3) = None" using nex by blast
      qed
    qed
  qed
qed

lemma open_pat_None:
  "open_pat p1 p2 p3 (\<lambda>g2 g3 s3. Some (g2, g3, s3)) s = None \<longleftrightarrow>
     \<not> (\<exists>g2 g3 z. s = p1 @ g2 @ p2 @ g3 @ p3 @ z \<and> list_all dot g2 \<and> list_all dot g3 \<and> g3 \<noteq> [])"
proof
  assume n: "open_pat p1 p2 p3 (\<lambda>g2 g3 s3. Some (g2, g3, s3)) s = None"
  show "\<not> (\<exists>g2 g3 z. s = p1 @ g2 @ p2 @ g3 @ p3 @ z \<and> list_all dot g2 \<and> list_all dot g3 \<and> g3 \<noteq> [])"
  proof
    assume "\<exists>g2 g3 z. s = p1 @ g2 @ p2 @ g3 @ p3 @ z \<and> list_all dot g2 \<and> list_all dot g3 \<and> g3 \<noteq> []"
    then obtain g2 g3 z where s: "s = p1 @ g2 @ p2 @ g3 @ p3 @ z"
      and g: "list_all dot g2" "list_all dot g3" "g3 \<noteq> []" by blast
    from n s have "many dot (\<lambda>g2. lit p2 (many1 dot (\<lambda>g3. lit p3 (\<lambda>s3. Some (g2, g3, s3))) [])) []
        (g2 @ p2 @ g3 @ p3 @ z) = None"
      by (simp add: open_pat_def lit_append)
    then have "lit p2 (many1 dot (\<lambda>g3. lit p3 (\<lambda>s3. Some ([] @ g2, g3, s3))) []) (p2 @ g3 @ p3 @ z) = None"
      unfolding many_None using g(1) by blast
    then show False unfolding open_inner_None using g by blast
  qed
next
  assume nex: "\<not> (\<exists>g2 g3 z. s = p1 @ g2 @ p2 @ g3 @ p3 @ z \<and> list_all dot g2 \<and> list_all dot g3 \<and> g3 \<noteq> [])"
  show "open_pat p1 p2 p3 (\<lambda>g2 g3 s3. Some (g2, g3, s3)) s = None"
    unfolding open_pat_def lit_None [of p1]
  proof (intro allI impI)
    fix s1 assume s1: "s = p1 @ s1"
    show "many dot (\<lambda>g2. lit p2 (many1 dot (\<lambda>g3. lit p3 (\<lambda>s3. Some (g2, g3, s3))) [])) [] s1 = None"
      unfolding many_None
    proof (intro allI impI)
      fix a t assume h: "s1 = a @ t \<and> list_all dot a"
      show "lit p2 (many1 dot (\<lambda>g3. lit p3 (\<lambda>s3. Some ([] @ a, g3, s3))) []) t = None"
        unfolding open_inner_None
      proof
        assume "\<exists>b z. t = p2 @ b @ p3 @ z \<and> b \<noteq> [] \<and> list_all dot b"
        then obtain b z where "t = p2 @ b @ p3 @ z" "b \<noteq> []" "list_all dot b" by blast
        then have "s = p1 @ a @ p2 @ b @ p3 @ z \<and> list_all dot a \<and> list_all dot b \<and> b \<noteq> []"
          using s1 h by simp
        then show False using nex by blast
      qed
    qed
  qed
qed

lemma open_pat_Some_D:
  assumes "open_pat p1 p2 p3 (\<lambda>g2 g3 s3. Some (g2, g3, s3)) s = Some (g2, g3, s3)"
  shows "s = p1 @ g2 @ p2 @ g3 @ p3 @ s3 \<and> list_all dot g2 \<and> list_all dot g3 \<and> g3 \<noteq> [] \<and>
    (\<forall>a' t'. g2 @ p2 @ g3 @ p3 @ s3 = a' @ t' \<and> list_all dot a' \<and> length g2 < length a' \<longrightarrow>
       lit p2 (many1 dot (\<lambda>g3. lit p3 (\<lambda>s3. Some (a', g3, s3))) []) t' = None)"
proof -
  from assms obtain s1 where s1: "s = p1 @ s1"
    and m: "many dot (\<lambda>g2. lit p2 (many1 dot (\<lambda>g3. lit p3 (\<lambda>s3. Some (g2, g3, s3))) [])) [] s1 =
            Some (g2, g3, s3)"
    unfolding open_pat_def lit_Some by auto
  from many_Some_D [OF m] obtain a t where at: "s1 = a @ t" "list_all dot a"
    and k: "lit p2 (many1 dot (\<lambda>g3. lit p3 (\<lambda>s3. Some (a, g3, s3))) []) t = Some (g2, g3, s3)"
    and mx: "\<forall>a' t'. s1 = a' @ t' \<and> list_all dot a' \<and> length a < length a' \<longrightarrow>
       lit p2 (many1 dot (\<lambda>g3. lit p3 (\<lambda>s3. Some (a', g3, s3))) []) t' = None"
    by auto
  from k obtain s2 where s2: "t = p2 @ s2"
    and m1: "many1 dot (\<lambda>g3. lit p3 (\<lambda>s3. Some (a, g3, s3))) [] s2 = Some (g2, g3, s3)"
    unfolding lit_Some by auto
  from many1_Some_D [OF m1] obtain b t2 where bt: "s2 = b @ t2" "b \<noteq> []" "list_all dot b"
    and k3: "lit p3 (\<lambda>s3. Some (a, b, s3)) t2 = Some (g2, g3, s3)"
    by auto
  from k3 have e: "t2 = p3 @ s3" "a = g2" "b = g3" unfolding lit_Some by auto
  show ?thesis using s1 at s2 bt e mx by simp
qed

lemma dot_prefix:
  assumes "list_all dot y" "list_all dot l" "y @ z = l @ nl # w"
  shows "\<exists>z0. l = y @ z0 \<and> z = z0 @ nl # w"
proof -
  from assms(3) consider us where "y = l @ us" "us @ z = nl # w"
    | us where "y @ us = l" "z = us @ nl # w"
    by (auto simp: append_eq_append_conv2)
  then show ?thesis
  proof cases
    case 1
    have "us = []"
    proof (cases us)
      case (Cons u us')
      then have "u = nl" using 1(2) by simp
      then have "\<not> list_all dot y" using 1(1) Cons by (simp add: dot_def)
      then show ?thesis using assms(1) by simp
    qed simp
    then show ?thesis using 1 by simp
  next
    case 2
    then show ?thesis by auto
  qed
qed

lemma open_pat_truncate:
  assumes o: "open_pat p1 p2 p3 (\<lambda>g2 g3 s3. Some (g2, g3, s3)) (p1 @ g2 @ p2 @ g3 @ p3 @ s3) =
            Some (g2, g3, s3)"
    and p: "list_all dot p2" "list_all dot p3"
  shows "open_pat p1 p2 p3 (\<lambda>g2 g3 s3. Some (g2, g3, s3)) (p1 @ g2 @ p2 @ g3 @ p3 @ nl # w) =
         Some (g2, g3, nl # w)"
proof -
  from open_pat_Some_D [OF o] have g: "list_all dot g2" "list_all dot g3" "g3 \<noteq> []"
    and mx: "\<forall>a' t'. g2 @ p2 @ g3 @ p3 @ s3 = a' @ t' \<and> list_all dot a' \<and> length g2 < length a' \<longrightarrow>
       lit p2 (many1 dot (\<lambda>g3. lit p3 (\<lambda>s3. Some (a', g3, s3))) []) t' = None"
    by auto
  have inner: "many1 dot (\<lambda>g3. lit p3 (\<lambda>s3. Some (g2, g3, s3))) [] (g3 @ p3 @ nl # w) =
               Some (g2, g3, nl # w)"
  proof (rule many1_Some_I [OF refl g(3) g(2)])
    show "lit p3 (\<lambda>s3. Some (g2, [] @ g3, s3)) (p3 @ nl # w) = Some (g2, g3, nl # w)"
      by (simp add: lit_append)
    show "\<forall>a' t'. g3 @ p3 @ nl # w = a' @ t' \<and> list_all dot a' \<and> length g3 < length a' \<longrightarrow>
       lit p3 (\<lambda>s3. Some (g2, [] @ a', s3)) t' = None"
    proof (intro allI impI)
      fix a' t' assume h: "g3 @ p3 @ nl # w = a' @ t' \<and> list_all dot a' \<and> length g3 < length a'"
      show "lit p3 (\<lambda>s3. Some (g2, [] @ a', s3)) t' = None"
        unfolding lit_None
      proof (intro allI impI)
        fix r assume r: "t' = p3 @ r"
        have "(a' @ p3) @ r = (g3 @ p3) @ nl # w" using h r by simp
        moreover have "list_all dot (a' @ p3)" "list_all dot (g3 @ p3)" using h p g by simp_all
        ultimately obtain z0 where "g3 @ p3 = (a' @ p3) @ z0" using dot_prefix by blast
        then have "length (g3 @ p3) = length ((a' @ p3) @ z0)" by simp
        then show "Some (g2, [] @ a', r) = None" using h by simp
      qed
    qed
  qed
  have "many dot (\<lambda>g2. lit p2 (many1 dot (\<lambda>g3. lit p3 (\<lambda>s3. Some (g2, g3, s3))) [])) []
          (g2 @ p2 @ g3 @ p3 @ nl # w) = Some (g2, g3, nl # w)"
  proof (rule many_Some_I [OF refl g(1)])
    show "lit p2 (many1 dot (\<lambda>g3. lit p3 (\<lambda>s3. Some ([] @ g2, g3, s3))) []) (p2 @ g3 @ p3 @ nl # w) =
          Some (g2, g3, nl # w)"
      using inner by (simp add: lit_append)
    show "\<forall>a' t'. g2 @ p2 @ g3 @ p3 @ nl # w = a' @ t' \<and> list_all dot a' \<and> length g2 < length a' \<longrightarrow>
       lit p2 (many1 dot (\<lambda>g3. lit p3 (\<lambda>s3. Some ([] @ a', g3, s3))) []) t' = None"
    proof (intro allI impI)
      fix a' t' assume h: "g2 @ p2 @ g3 @ p3 @ nl # w = a' @ t' \<and> list_all dot a' \<and> length g2 < length a'"
      show "lit p2 (many1 dot (\<lambda>g3. lit p3 (\<lambda>s3. Some ([] @ a', g3, s3))) []) t' = None"
      proof (rule ccontr)
        assume "lit p2 (many1 dot (\<lambda>g3. lit p3 (\<lambda>s3. Some ([] @ a', g3, s3))) []) t' \<noteq> None"
        then obtain b z where bz: "t' = p2 @ b @ p3 @ z" "b \<noteq> []" "list_all dot b"
          using open_inner_None [of p2 p3 "[] @ a'" t'] by auto
        have "(a' @ p2 @ b @ p3) @ z = (g2 @ p2 @ g3 @ p3) @ nl # w" using h bz by simp
        moreover have "list_all dot (a' @ p2 @ b @ p3)" "list_all dot (g2 @ p2 @ g3 @ p3)"
          using h bz p g by simp_all
        ultimately obtain z0 where z0: "g2 @ p2 @ g3 @ p3 = (a' @ p2 @ b @ p3) @ z0"
          using dot_prefix by blast
        then have "g2 @ p2 @ g3 @ p3 @ s3 = a' @ (p2 @ b @ p3 @ z0 @ s3)"
          by (metis append.assoc)
        then have "lit p2 (many1 dot (\<lambda>g3. lit p3 (\<lambda>s3. Some (a', g3, s3))) []) (p2 @ b @ p3 @ z0 @ s3) = None"
          using mx h by blast
        moreover have "\<exists>b' z'. p2 @ b @ p3 @ z0 @ s3 = p2 @ b' @ p3 @ z' \<and> b' \<noteq> [] \<and> list_all dot b'"
          using bz by blast
        ultimately show False unfolding open_inner_None by blast
      qed
    qed
  qed
  then show ?thesis by (simp add: open_pat_def lit_append)
qed

lemma open_pat_mono:
  assumes p: "list_all dot p1" "list_all dot p2" "list_all dot p3"
    and o: "open_pat p1 p2 p3 (\<lambda>g2 g3 s3. Some (g2, g3, s3)) s' \<noteq> None"
    and pre: "prefix (takeWhile dot s') (takeWhile dot s)"
  shows "open_pat p1 p2 p3 (\<lambda>g2 g3 s3. Some (g2, g3, s3)) s \<noteq> None"
proof -
  from o obtain g2 g3 z where s': "s' = p1 @ g2 @ p2 @ g3 @ p3 @ z"
    and g: "list_all dot g2" "list_all dot g3" "g3 \<noteq> []"
    unfolding open_pat_None by auto
  let ?y = "p1 @ g2 @ p2 @ g3 @ p3"
  have y: "list_all dot ?y" using p g by simp
  then have "takeWhile dot (?y @ z) = ?y @ takeWhile dot z"
    by (intro takeWhile_append2) (simp add: list_all_iff)
  then have "prefix ?y (takeWhile dot s')" using s' by simp
  then have "prefix ?y (takeWhile dot s)" using pre by (rule prefix_order.trans)
  moreover have "prefix (takeWhile dot s) s" by (metis prefixI takeWhile_dropWhile_id)
  ultimately have "prefix ?y s" by (rule prefix_order.trans)
  then obtain z' where "s = ?y @ z'" by (auto simp: prefix_def)
  then have "s = p1 @ g2 @ p2 @ g3 @ p3 @ z'" by simp
  then show ?thesis unfolding open_pat_None using g by blast
qed

subsection \<open>The closing marker\<close>

lemma close_pat_Some_D:
  assumes "close_pat q1 q2 u = Some (g4, g5, rest)"
  shows "\<exists>x. u = x @ g4 @ rest \<and> g4 = q1 @ g5 @ q2 \<and> list_all dot x \<and> list_all dot g5 \<and>
           close_pat q1 q2 (g4 @ rest) = Some (g4, g5, rest)"
proof -
  let ?K = "\<lambda>skipped :: string. lit q1 (many dot (\<lambda>g5. lit q2 (\<lambda>rest. Some (q1 @ g5 @ q2, g5, rest))) [])"
  from assms have m: "many dot ?K [] u = Some (g4, g5, rest)" by (simp add: close_pat_def)
  from many_Some_D [OF m] obtain x t where xt: "u = x @ t" "list_all dot x"
    and k: "?K ([] @ x) t = Some (g4, g5, rest)"
    and mx: "\<forall>a' t'. u = a' @ t' \<and> list_all dot a' \<and> length x < length a' \<longrightarrow> ?K ([] @ a') t' = None"
    by blast
  from k obtain s5 where s5: "t = q1 @ s5"
    and m5: "many dot (\<lambda>g5. lit q2 (\<lambda>rest. Some (q1 @ g5 @ q2, g5, rest))) [] s5 = Some (g4, g5, rest)"
    unfolding lit_Some by auto
  from many_Some_D [OF m5] obtain a t6 where a: "s5 = a @ t6" "list_all dot a"
    and k6: "lit q2 (\<lambda>rest. Some (q1 @ ([] @ a) @ q2, [] @ a, rest)) t6 = Some (g4, g5, rest)"
    by blast
  from k6 have e: "t6 = q2 @ rest" "g5 = a" "g4 = q1 @ a @ q2" unfolding lit_Some by auto
  have t: "t = g4 @ rest" using s5 a e by simp
  have "many dot ?K [] t = Some (g4, g5, rest)"
  proof (rule many_Some_I [of t "[]" t])
    show "t = [] @ t" by simp
    show "list_all dot []" by simp
    show "?K ([] @ []) t = Some (g4, g5, rest)" using k by simp
    show "\<forall>a' t'. t = a' @ t' \<and> list_all dot a' \<and> length ([]::string) < length a' \<longrightarrow> ?K ([] @ a') t' = None"
    proof (intro allI impI)
      fix a' t' assume h: "t = a' @ t' \<and> list_all dot a' \<and> length ([]::string) < length a'"
      then have "u = (x @ a') @ t' \<and> list_all dot (x @ a') \<and> length x < length (x @ a')"
        using xt by simp
      then have "?K ([] @ (x @ a')) t' = None" using mx by blast
      then show "?K ([] @ a') t' = None" by simp
    qed
  qed
  then have "close_pat q1 q2 (g4 @ rest) = Some (g4, g5, rest)" using t by (simp add: close_pat_def)
  then show ?thesis using xt t e a by auto
qed


subsection \<open>A match of \<open>list_render_template\<close>\<close>

lemma open_marker_Some_D:
  assumes "open_marker s = Some (g2, g3, s3)"
  shows "s = (''{{ListGenBot-List'' @ g2 @ ''Start|'' @ g3 @ ''}}'') @ s3"
    and "list_all dot (''{{ListGenBot-List'' @ g2 @ ''Start|'' @ g3 @ ''}}'')"
proof -
  from open_pat_Some_D [OF assms [unfolded open_marker_def]]
  have "s = ''{{ListGenBot-List'' @ g2 @ ''Start|'' @ g3 @ ''}}'' @ s3" "list_all dot g2" "list_all dot g3"
    by blast+
  then show "s = (''{{ListGenBot-List'' @ g2 @ ''Start|'' @ g3 @ ''}}'') @ s3"
    and "list_all dot (''{{ListGenBot-List'' @ g2 @ ''Start|'' @ g3 @ ''}}'')"
    using dot_lits by simp_all
qed

lemma open_marker_truncate:
  assumes "open_marker s = Some (g2, g3, s3)"
  shows "open_marker ((''{{ListGenBot-List'' @ g2 @ ''Start|'' @ g3 @ ''}}'') @ nl # w) =
         Some (g2, g3, nl # w)"
proof -
  have s: "s = ''{{ListGenBot-List'' @ g2 @ ''Start|'' @ g3 @ ''}}'' @ s3"
    using open_marker_Some_D(1) [OF assms] by simp
  have "open_pat ''{{ListGenBot-List'' ''Start|'' ''}}'' (\<lambda>g2 g3 s3. Some (g2, g3, s3))
          (''{{ListGenBot-List'' @ g2 @ ''Start|'' @ g3 @ ''}}'' @ nl # w) = Some (g2, g3, nl # w)"
    by (rule open_pat_truncate [OF assms [unfolded open_marker_def s] dot_lits(2,3)])
  then show ?thesis by (simp add: open_marker_def)
qed

lemma open_marker_mono:
  "open_marker s = None \<Longrightarrow> prefix (takeWhile dot s') (takeWhile dot s) \<Longrightarrow> open_marker s' = None"
  unfolding open_marker_def using open_pat_mono [OF dot_lits(1,2,3)] by blast

lemma close_marker_Some_D:
  assumes "close_marker u = Some (g4, g5, rest)"
  shows "\<exists>x. u = x @ g4 @ rest \<and> close_marker (g4 @ rest) = Some (g4, g5, rest)"
  using close_pat_Some_D [OF assms [unfolded close_marker_pat]] unfolding close_marker_pat by blast

lemma list_render_template_None:
  "list_render_template s = None \<longleftrightarrow> open_marker s = None \<or> lines_plus close_marker s = None"
  unfolding list_render_template_factor
  by (cases "open_marker s"; cases "lines_plus close_marker s")
     (auto simp: assemble_def split: prod.splits)

lemma list_render_template_Some:
  "list_render_template s = Some ((g1, g2, g3, g4, g5), rest) \<longleftrightarrow>
     (\<exists>s3. open_marker s = Some (g2, g3, s3)) \<and>
     lines_plus close_marker s = Some (g4, g5, rest) \<and>
     g1 = ''{{ListGenBot-List'' @ g2 @ ''Start|'' @ g3 @ ''}}''"
  unfolding list_render_template_factor
  by (cases "open_marker s"; cases "lines_plus close_marker s")
     (auto simp: assemble_def split: prod.splits)

text \<open>What a match leaves: its close marker is on the last line that has one.\<close>

lemma tail_Some_D:
  assumes "lines_plus close_marker s = Some (g4, g5, rest)"
  shows "\<exists>p x. s = p @ nl # x @ g4 @ rest"
    and "lines_plus close_marker rest = None"
    and "lines_plus close_marker (p' @ nl # g4 @ rest) = Some (g4, g5, rest)"
proof -
  from lines_plus_Some_D [OF assms] obtain p u where pu: "s = p @ nl # u"
    "close_marker u = Some (g4, g5, rest)" "lines_plus close_marker u = None" by blast
  from close_marker_Some_D [OF pu(2)] obtain x where x: "u = x @ g4 @ rest"
    "close_marker (g4 @ rest) = Some (g4, g5, rest)" by blast
  show "\<exists>p x. s = p @ nl # x @ g4 @ rest" using pu(1) x(1) by blast
  have n: "lines_plus close_marker (g4 @ rest) = None"
    using pu(3) x(1) lines_plus_None_suffix [of close_marker x "g4 @ rest"] by simp
  then show "lines_plus close_marker rest = None" by (rule lines_plus_None_suffix)
  show "lines_plus close_marker (p' @ nl # g4 @ rest) = Some (g4, g5, rest)"
    using x(2) n by (rule lines_plus_Some_I)
qed

lemma list_render_template_shorter:
  assumes "list_render_template s = Some (g, rest)"
  shows "length rest < length s"
proof -
  obtain g1 g2 g3 g4 g5 where "g = (g1, g2, g3, g4, g5)" by (cases g)
  then have "lines_plus close_marker s = Some (g4, g5, rest)"
    using assms by (simp add: list_render_template_Some)
  from tail_Some_D(1) [OF this] show ?thesis by auto
qed

section \<open>The render pass and the batch runner\<close>

text \<open>
  \<open>list_render_template.sub(repl=self._render_list, string=text)\<close>: scanning from the left,
  the first position with a match is replaced by \<open>_render_list\<close> of the match and the scan
  goes on after the match; a character at a position without a match is copied.  A match
  is never empty, so the special cases of \<open>re.sub\<close> for empty matches do not arise.
\<close>

function sub_render :: "store \<Rightarrow> string \<Rightarrow> string" where
  "sub_render st [] = []"
| "sub_render st (c # cs) =
     (case list_render_template (c # cs) of
        None \<Rightarrow> c # sub_render st cs
      | Some (m, rest) \<Rightarrow> render_list st m @ sub_render st rest)"
  by pat_completeness auto
termination
  by (relation "measure (\<lambda>(st, s). length s)") (auto dest: list_render_template_shorter)

text \<open>
  The leftmost match in a text, as \<open>sub\<close> finds it: the text before the match, the groups
  and the text after the match.
\<close>

fun first_match :: "string \<Rightarrow> (string \<times> groups \<times> string) option" where
  "first_match [] = None"
| "first_match (c # cs) =
     (case list_render_template (c # cs) of
        Some (m, rest) \<Rightarrow> Some ([], m, rest)
      | None \<Rightarrow> map_option (\<lambda>(before, m, rest). (c # before, m, rest)) (first_match cs))"

text \<open>
  A \<open>pywikibot.Page\<close> object: its title and the text it holds, loaded from the wiki when the
  object is made (the bot reads \<open>page.text\<close> before anything is written through the
  object).  Assigning \<open>page.text\<close> changes the object only; \<open>page.save\<close> writes the text the
  object holds to the wiki.
\<close>

record wiki_page =
  page_title :: string
  page_text :: string

definition get_page :: "store \<Rightarrow> string \<Rightarrow> wiki_page" where
  "get_page st page_name = \<lparr>page_title = page_name, page_text = st page_name\<rparr>"

definition save :: "wiki_page \<Rightarrow> store \<Rightarrow> store" where
  "save page st = st(page_title page := page_text page)"

text \<open>
  \<open>main_function\<close>: the scanner loop over the lines read at the start, then the render
  pass over the page's text as it is after the loop.
\<close>

definition main_function :: "string \<Rightarrow> store \<Rightarrow> store" where
  "main_function page_name st =
     (let page_lines = get_page_text st page_name;
          (in_list, list_content, st1) = scan_page page_name st page_lines;
          page = get_page st1 page_name;
          new_text = sub_render st1 (page_text page);
          page = page\<lparr>page_text := new_text\<rparr>
      in if page_text page \<noteq> new_text then save page st1 else st1)"

definition PAGES_TO_GO_THROUGH :: nat where
  "PAGES_TO_GO_THROUGH = 25"

text \<open>\<open>_get_page_start\<close> and \<open>_set_page_start\<close>, on the bot's reference page.\<close>

definition get_page_start :: "string \<Rightarrow> store \<Rightarrow> string" where
  "get_page_start reference_page_title st = hd (split_nl (st reference_page_title))"

definition set_page_start :: "string \<Rightarrow> string \<Rightarrow> store \<Rightarrow> store" where
  "set_page_start reference_page_title new_start st =
     save \<lparr>page_title = reference_page_title, page_text = new_start\<rparr> st"

text \<open>
  \<open>run\<close>.  \<open>_pages_from\<close> asks the wiki's API for the titles from the start point on; it is
  the parameter \<open>pages_from\<close>, which returns the list of titles (the \<open>'title'\<close> of each
  entry of the JSON list).
\<close>

definition run :: "string \<Rightarrow> (string \<Rightarrow> string list) \<Rightarrow> store \<Rightarrow> store" where
  "run reference_page_title pages_from st =
     (let start_page_title = get_page_start reference_page_title st;
          pages_to_run = pages_from start_page_title;
          (last_page_seen, st1) =
            foldl (\<lambda>(last_page_seen, s) title. (title, main_function title s)) ([], st) pages_to_run
      in if length pages_to_run < PAGES_TO_GO_THROUGH
         then set_page_start reference_page_title [] st1
         else set_page_start reference_page_title last_page_seen st1)"


section \<open>Properties of the render pass\<close>

lemma list_render_template_Nil: "list_render_template [] = None"
  by (simp add: list_render_template_def lit_def)

lemma sub_render_no_close: "lines_plus close_marker s = None \<Longrightarrow> sub_render st s = s"
proof (induction s)
  case Nil
  show ?case by simp
next
  case (Cons c cs)
  have "list_render_template (c # cs) = None"
    using Cons.prems by (simp add: list_render_template_None)
  moreover have "lines_plus close_marker cs = None"
    using Cons.prems lines_plus_None_suffix [of close_marker "[c]" cs] by simp
  ultimately show ?case using Cons.IH by simp
qed

lemma sub_render_match:
  assumes "list_render_template s = Some ((g1, g2, g3, g4, g5), rest)"
  shows "sub_render st s = render_list st (g1, g2, g3, g4, g5) @ rest"
proof -
  have t: "lines_plus close_marker s = Some (g4, g5, rest)"
    using assms by (simp add: list_render_template_Some)
  have "sub_render st rest = rest"
    using tail_Some_D(2) [OF t] by (rule sub_render_no_close)
  moreover obtain c cs where "s = c # cs"
    using assms list_render_template_Nil by (cases s) auto
  ultimately show ?thesis using assms by simp
qed

lemma render_list_shape:
  "\<exists>body. render_list st (g1, g2, g3, g4, g5) = g1 @ nl # body @ nl # g4"
  by (simp add: render_list_def Let_def)

text \<open>The replacement of a match, followed by what the match left, matches again the same way.\<close>

lemma list_render_template_again:
  assumes "list_render_template s = Some ((g1, g2, g3, g4, g5), rest)"
  shows "list_render_template (g1 @ nl # body @ nl # g4 @ rest) = Some ((g1, g2, g3, g4, g5), rest)"
proof -
  from assms obtain s3 where o: "open_marker s = Some (g2, g3, s3)"
    and t: "lines_plus close_marker s = Some (g4, g5, rest)"
    and g1: "g1 = ''{{ListGenBot-List'' @ g2 @ ''Start|'' @ g3 @ ''}}''"
    unfolding list_render_template_Some by blast
  have "open_marker (g1 @ nl # body @ nl # g4 @ rest) = Some (g2, g3, nl # body @ nl # g4 @ rest)"
    using open_marker_truncate [OF o, of "body @ nl # g4 @ rest"] g1 by simp
  moreover have "lines_plus close_marker ((g1 @ nl # body) @ nl # g4 @ rest) = Some (g4, g5, rest)"
    by (rule tail_Some_D(3) [OF t])
  ultimately show ?thesis unfolding list_render_template_Some using g1 by simp
qed

lemma sub_render_first_line: "prefix (takeWhile dot (sub_render st s)) (takeWhile dot s)"
proof (induction st s rule: sub_render.induct)
  case (1 st)
  show ?case by simp
next
  case (2 st c cs)
  show ?case
  proof (cases "list_render_template (c # cs)")
    case None
    then show ?thesis using 2(1) by simp
  next
    case (Some r)
    obtain g1 g2 g3 g4 g5 rest where r: "r = ((g1, g2, g3, g4, g5), rest)" by (cases r) auto
    have m: "list_render_template (c # cs) = Some ((g1, g2, g3, g4, g5), rest)" using Some r by simp
    then obtain s3 where o: "open_marker (c # cs) = Some (g2, g3, s3)"
      and g1: "g1 = ''{{ListGenBot-List'' @ g2 @ ''Start|'' @ g3 @ ''}}''"
      unfolding list_render_template_Some by blast
    have d: "list_all dot g1" and s: "c # cs = g1 @ s3"
      using open_marker_Some_D [OF o] g1 by simp_all
    obtain body where b: "render_list st (g1, g2, g3, g4, g5) = g1 @ nl # body @ nl # g4"
      using render_list_shape by blast
    have "sub_render st (c # cs) = g1 @ nl # body @ nl # g4 @ rest"
      using sub_render_match [OF m] b by simp
    moreover have "takeWhile dot (g1 @ nl # body @ nl # g4 @ rest) = g1"
      using d by (simp add: list_all_iff dot_def)
    moreover have "takeWhile dot (g1 @ s3) = g1 @ takeWhile dot s3"
      using d by (simp add: list_all_iff)
    ultimately show ?thesis using s by simp
  qed
qed

lemma sub_render_first_match:
  "sub_render st s =
     (case first_match s of
        None \<Rightarrow> s
      | Some (before, m, rest) \<Rightarrow> before @ render_list st m @ rest)"
proof (induction s)
  case Nil
  show ?case by simp
next
  case (Cons c cs)
  show ?case
  proof (cases "list_render_template (c # cs)")
    case None
    then show ?thesis using Cons.IH by (auto split: option.splits)
  next
    case (Some r)
    obtain g1 g2 g3 g4 g5 rest where r: "r = ((g1, g2, g3, g4, g5), rest)" by (cases r) auto
    have m: "list_render_template (c # cs) = Some ((g1, g2, g3, g4, g5), rest)" using Some r by simp
    show ?thesis using sub_render_match [OF m] m by simp
  qed
qed


section \<open>Properties of the scanner\<close>

lemma search_Some_D: "search m s = Some r \<Longrightarrow> \<exists>a t. s = a @ t \<and> m t = Some r"
proof (induction s)
  case Nil
  then show ?case by simp
next
  case (Cons c cs)
  show ?case
  proof (cases "m (c # cs)")
    case None
    then have "search m cs = Some r" using Cons.prems by simp
    from Cons.IH [OF this] obtain a t where "cs = a @ t" "m t = Some r" by auto
    then show ?thesis by (intro exI [of _ "c # a"] exI [of _ t]) simp
  next
    case (Some r')
    then have "m (c # cs) = Some r" using Cons.prems by simp
    then show ?thesis by (intro exI [of _ "[]"] exI [of _ "c # cs"]) simp
  qed
qed

lemma list_content_start_nonempty: "list_content_start t = Some n \<Longrightarrow> n \<noteq> []"
proof -
  assume "list_content_start t = Some n"
  then obtain s1 where "many1 dot (\<lambda>g. lit ''}}'' (\<lambda>r. Some g)) [] s1 = Some n"
    unfolding list_content_start_def lit_Some by auto
  from many1_Some_D [OF this] obtain a t2 where "a \<noteq> []" "lit ''}}'' (\<lambda>r. Some ([] @ a)) t2 = Some n"
    by auto
  then show "n \<noteq> []" unfolding lit_Some by auto
qed

lemma find_list_content_start_truthy:
  "find_list_content_start line = Some n \<Longrightarrow> truthy_str (Some n)"
  unfolding find_list_content_start_def
  using search_Some_D list_content_start_nonempty by fastforce

lemma scan_inside:
  "truthy_str in_list \<Longrightarrow> \<forall>r\<in>set rest. \<not> find_list_content_end r \<Longrightarrow>
   foldl (scan_step page) (in_list, list_content, st) rest =
     (in_list, list_content @ filter (\<lambda>l. \<not> find_title l) rest, st)"
  by (induction rest arbitrary: list_content) (simp_all add: scan_step_def)

lemma block_calls_inside:
  "truthy_str in_list \<Longrightarrow> \<forall>r\<in>set rest. \<not> find_list_content_end r \<Longrightarrow>
   block_calls in_list list_content rest = []"
  by (induction rest arbitrary: list_content) simp_all

lemma block_calls_append:
  "block_calls in_list list_content (xs @ ys) =
     block_calls in_list list_content xs @
     (case foldl (scan_step page) (in_list, list_content, st) xs of
        (in_list', list_content', st') \<Rightarrow> block_calls in_list' list_content' ys)"
  by (induction xs arbitrary: in_list list_content st) (simp_all add: scan_step_def)

lemma scan_store:
  "snd (snd (foldl (scan_step page) (in_list, list_content, st) page_lines)) =
     foldl (\<lambda>s (content, list_name). add_to_list content page list_name s) st
       (block_calls in_list list_content page_lines)"
  by (induction page_lines arbitrary: in_list list_content st) (simp_all add: scan_step_def)


lemma first_match_Some_D:
  "first_match s = Some (before, m, rest) \<Longrightarrow>
     \<exists>t. s = before @ t \<and> list_render_template t = Some (m, rest)"
proof (induction s arbitrary: before)
  case Nil
  then show ?case by simp
next
  case (Cons c cs)
  show ?case
  proof (cases "list_render_template (c # cs)")
    case None
    then obtain b where b: "first_match cs = Some (b, m, rest)" "before = c # b"
      using Cons.prems by auto
    from Cons.IH [OF b(1)] show ?thesis using b(2) by auto
  next
    case (Some r)
    then have "before = []" "r = (m, rest)" using Cons.prems by (auto split: prod.splits)
    then show ?thesis using Some by simp
  qed
qed

lemma match_span:
  assumes "list_render_template t = Some ((g1, g2, g3, g4, g5), rest)"
  shows "\<exists>mid. t = g1 @ mid @ g4 @ rest"
proof -
  from assms obtain s3 where o: "open_marker t = Some (g2, g3, s3)"
    and tl: "lines_plus close_marker t = Some (g4, g5, rest)"
    and g1: "g1 = ''{{ListGenBot-List'' @ g2 @ ''Start|'' @ g3 @ ''}}''"
    unfolding list_render_template_Some by blast
  have d: "list_all dot g1" and t: "t = g1 @ s3" using open_marker_Some_D [OF o] g1 by simp_all
  from tail_Some_D(1) [OF tl] obtain p x where px: "t = p @ nl # x @ g4 @ rest" by blast
  from t px have "g1 @ s3 = p @ nl # x @ g4 @ rest" by simp
  then consider us where "g1 = p @ us" "us @ s3 = nl # x @ g4 @ rest"
    | us where "g1 @ us = p" "s3 = us @ nl # x @ g4 @ rest"
    by (auto simp: append_eq_append_conv2)
  then show ?thesis
  proof cases
    case 1
    have "us = []"
    proof (cases us)
      case (Cons u us')
      then have "u = nl" using 1(2) by simp
      then have "\<not> list_all dot g1" using 1(1) Cons by (simp add: dot_def)
      then show ?thesis using d by simp
    qed simp
    then have "t = g1 @ (nl # x) @ g4 @ rest" using 1 t by simp
    then show ?thesis by blast
  next
    case 2
    then have "t = g1 @ (us @ nl # x) @ g4 @ rest" using t by simp
    then show ?thesis by blast
  qed
qed

lemma render_list_mismatch:
  "g2 \<noteq> g5 \<Longrightarrow> render_list st (g1, g2, g3, g4, g5) = g1 @ [nl, nl] @ g4"
  by (simp add: render_list_def)

lemma main_function_store:
  "main_function page_name st = snd (snd (scan_page page_name st (get_page_text st page_name)))"
  by (simp add: main_function_def Let_def split: prod.splits)

lemma run_last_page_seen:
  "fst (foldl (\<lambda>(last_page_seen, s) title. (title, main_function title s)) (l0, st) pages) =
     (if pages = [] then l0 else last pages)"
  by (induction pages arbitrary: l0 st) simp_all

lemma run_cursor:
  "run reference_page_title pages_from st reference_page_title =
     (let pages_to_run = pages_from (get_page_start reference_page_title st)
      in if length pages_to_run < PAGES_TO_GO_THROUGH then []
         else if pages_to_run = [] then [] else last pages_to_run)"
proof -
  let ?pages = "pages_from (get_page_start reference_page_title st)"
  obtain l st1 where f: "foldl (\<lambda>(last_page_seen, s) title. (title, main_function title s)) ([], st) ?pages = (l, st1)"
    by (cases "foldl (\<lambda>(last_page_seen, s) title. (title, main_function title s)) ([], st) ?pages")
  have "l = (if ?pages = [] then [] else last ?pages)"
    using run_last_page_seen [of "[]" st ?pages] f by simp
  then show ?thesis
    by (simp add: run_def Let_def f set_page_start_def save_def)
qed


section \<open>The scanner\<close>

text \<open>
  C10.  Inside a content block (\<open>in_list\<close> truthy), a line that matches the content-start
  marker and is neither a content-end marker nor a heading is appended verbatim to
  \<open>list_content\<close>; the list name stays the one the block was opened with, and nothing is
  written to the wiki.
\<close>

theorem start_marker_inside_block_is_content:
  assumes "truthy_str in_list"
    and "find_list_content_start line = Some other"
    and "\<not> find_list_content_end line"
    and "\<not> find_title line"
  shows "scan_step page (in_list, list_content, st) line = (in_list, list_content @ [line], st)"
  using assms by (simp add: scan_step_def)

text \<open>The hypotheses of C10 hold for a start marker of list \<open>Bar\<close> met inside list \<open>Foo\<close>.\<close>

theorem start_marker_inside_block_is_content_witness:
  "truthy_str (Some ''Foo'') \<and>
   find_list_content_start ''{{ListGenBot-SourceStart|Bar}}'' = Some ''Bar'' \<and>
   \<not> find_list_content_end ''{{ListGenBot-SourceStart|Bar}}'' \<and>
   \<not> find_title ''{{ListGenBot-SourceStart|Bar}}'' \<and>
   scan_step ''Page'' (Some ''Foo'', [''a''], empty_store) ''{{ListGenBot-SourceStart|Bar}}'' =
     (Some ''Foo'', [''a'', ''{{ListGenBot-SourceStart|Bar}}''], empty_store)"
proof -
  have h1: "truthy_str (Some ''Foo'')" by simp
  have h2: "find_list_content_start ''{{ListGenBot-SourceStart|Bar}}'' = Some ''Bar''"
    by (simp add: find_list_content_start_def list_content_start_def lit_def dot_def)
  have h3: "\<not> find_list_content_end ''{{ListGenBot-SourceStart|Bar}}''"
    by (simp add: find_list_content_end_def list_content_end_def lit_def)
  have h4: "\<not> find_title ''{{ListGenBot-SourceStart|Bar}}''"
    by (simp add: find_title_def title_search_def is_eq_def)
  show ?thesis
    using start_marker_inside_block_is_content [OF h1 h2 h3 h4, of "''Page''" "[''a'']" empty_store]
      h1 h2 h3 h4 by simp
qed

text \<open>
  C8.  When the scanner is outside any block after the lines \<open>pre\<close>, the next line is a
  content-start marker and no later line holds a content-end marker, then the loop ends
  inside the opened block, no call of \<open>_add_to_list\<close> is made for it (the calls are those
  of \<open>pre\<close>) and the wiki is the one left after \<open>pre\<close>: the accumulated lines are dropped.
\<close>

theorem unterminated_block_dropped:
  assumes "\<not> truthy_str (fst (scan_page page st pre))"
    and "find_list_content_start line = Some list_name"
    and "\<forall>r\<in>set rest. \<not> find_list_content_end r"
  shows "fst (scan_page page st (pre @ line # rest)) = Some list_name \<and>
         block_calls None [] (pre @ line # rest) = block_calls None [] pre \<and>
         snd (snd (scan_page page st (pre @ line # rest))) = snd (snd (scan_page page st pre))"
proof -
  obtain il c st1 where pre: "scan_page page st pre = (il, c, st1)" by (cases "scan_page page st pre")
  then have out: "\<not> truthy_str il" using assms(1) by simp
  have t: "truthy_str (Some list_name)" using assms(2) by (rule find_list_content_start_truthy)
  have step: "scan_step page (il, c, st1) line = (Some list_name, c, st1)"
    using out assms(2) by (simp add: scan_step_def)
  have "scan_page page st (pre @ line # rest) =
        foldl (scan_step page) (scan_step page (il, c, st1) line) rest"
    using pre by (simp add: scan_page_def)
  then have fin: "scan_page page st (pre @ line # rest) =
        (Some list_name, c @ filter (\<lambda>l. \<not> find_title l) rest, st1)"
    using step scan_inside [OF t assms(3)] by simp
  have "block_calls None [] (pre @ line # rest) =
        block_calls None [] pre @ block_calls il c (line # rest)"
    using block_calls_append [of None "[]" pre "line # rest" page st] pre
    by (simp add: scan_page_def)
  also have "block_calls il c (line # rest) = block_calls (Some list_name) c rest"
    using out assms(2) by simp
  also have "\<dots> = []" using t assms(3) by (rule block_calls_inside)
  finally show ?thesis using fin pre by simp
qed

text \<open>The hypotheses of C8 hold for a start marker after one line, followed by one item.\<close>

theorem unterminated_block_dropped_witness:
  "\<not> truthy_str (fst (scan_page ''Page'' empty_store [''intro''])) \<and>
   find_list_content_start ''{{ListGenBot-SourceStart|Foo}}'' = Some ''Foo'' \<and>
   \<not> find_list_content_end ''item'' \<and>
   fst (scan_page ''Page'' empty_store ([''intro''] @ ''{{ListGenBot-SourceStart|Foo}}'' # [''item''])) = Some ''Foo'' \<and>
   block_calls None [] ([''intro''] @ ''{{ListGenBot-SourceStart|Foo}}'' # [''item'']) =
     block_calls None [] [''intro''] \<and>
   snd (snd (scan_page ''Page'' empty_store ([''intro''] @ ''{{ListGenBot-SourceStart|Foo}}'' # [''item'']))) =
     snd (snd (scan_page ''Page'' empty_store [''intro'']))"
proof -
  have h1: "\<not> truthy_str (fst (scan_page ''Page'' empty_store [''intro'']))"
    by (simp add: scan_page_def scan_step_def find_list_content_start_def list_content_start_def lit_def)
  have h2: "find_list_content_start ''{{ListGenBot-SourceStart|Foo}}'' = Some ''Foo''"
    by (simp add: find_list_content_start_def list_content_start_def lit_def dot_def)
  have h3: "\<not> find_list_content_end ''item''"
    by (simp add: find_list_content_end_def list_content_end_def lit_def)
  then have h3': "\<forall>r\<in>set [''item'']. \<not> find_list_content_end r" by simp
  show ?thesis
    using unterminated_block_dropped [OF h1 h2 h3'] h1 h2 h3 by simp
qed

section \<open>The aggregator\<close>

text \<open>Three aggregate pages of list \<open>L\<close>, each the only page of its wiki.\<close>

definition aggregate_AB :: store where
  "aggregate_AB = empty_store(''ListGenBot L'' := join_nl [''==A=='', ''x'', ''==B=='', ''y''])"

definition aggregate_BA :: store where
  "aggregate_BA = empty_store(''ListGenBot L'' := join_nl [''==B=='', ''y'', ''==A=='', ''x''])"

definition aggregate_A :: store where
  "aggregate_A = empty_store(''ListGenBot L'' := join_nl [''==A=='', ''x''])"

lemmas eval_defs = get_page_text_def add_to_list_def add_to_list_lines_def delete_section_def
  find_title_def title_search_def is_eq_def not_eq_def opt_space_def at_end_def empty_store_def

text \<open>
  C3.  The aggregate holds the section \<open>==A==\<close> and no line \<open>==B==\<close>.  The upsert of
  content \<open>y\<close> for page \<open>B\<close> leaves \<open>start\<close> and \<open>end\<close> at \<open>None\<close>, takes the branch
  \<open>elif end is None\<close> and deletes every line: section \<open>A\<close> is gone and the aggregate is
  the new section alone.
\<close>

theorem add_to_list_heading_absent_deletes_all:
  "add_to_list [''y''] ''B'' ''L'' aggregate_A ''ListGenBot L'' = join_nl [''==B=='', ''y'']"
  by (simp add: aggregate_A_def eval_defs)

text \<open>
  C4.  The heading \<open>==A==\<close> is line 0, so \<open>start\<close> is 0 and the test \<open>start and ...\<close> never
  holds: no \<open>end\<close> is found and the upsert with empty content deletes from line 0 to the
  end of the page, section \<open>B\<close> included.
\<close>

theorem add_to_list_first_section_deletes_all:
  "add_to_list [] ''A'' ''L'' aggregate_AB ''ListGenBot L'' = []"
  by (simp add: aggregate_AB_def eval_defs)

text \<open>
  C6.  The first upsert of empty content for page \<open>A\<close> removes section \<open>A\<close> and keeps
  section \<open>B\<close>; the second, with the same arguments, finds no heading \<open>==A==\<close> and deletes
  every line.
\<close>

theorem add_to_list_twice_differs:
  "add_to_list [] ''A'' ''L'' aggregate_BA ''ListGenBot L'' = join_nl [''==B=='', ''y''] \<and>
   add_to_list [] ''A'' ''L'' (add_to_list [] ''A'' ''L'' aggregate_BA) ''ListGenBot L'' = []"
  by (simp add: aggregate_BA_def eval_defs)


section \<open>The renderer\<close>

text \<open>
  C7.  For every wiki \<open>st\<close> (the snapshot of the aggregate pages the pass reads) and every
  text, a second render pass over the output of the first changes nothing.
\<close>

theorem render_idempotent:
  "sub_render st (sub_render st doc) = sub_render st doc"
proof (induction st doc rule: sub_render.induct)
  case (1 st)
  show ?case by simp
next
  case (2 st c cs)
  show ?case
  proof (cases "list_render_template (c # cs)")
    case None
    then have sr: "sub_render st (c # cs) = c # sub_render st cs" by simp
    have "list_render_template (c # sub_render st cs) = None"
    proof (cases "lines_plus close_marker (c # cs) = None")
      case True
      then have "sub_render st (c # cs) = c # cs" by (rule sub_render_no_close)
      then show ?thesis using sr None by simp
    next
      case False
      moreover have "open_marker (c # cs) = None \<or> lines_plus close_marker (c # cs) = None"
        using None unfolding list_render_template_None .
      ultimately have o: "open_marker (c # cs) = None" by argo
      have "prefix (takeWhile dot (c # sub_render st cs)) (takeWhile dot (c # cs))"
        using sub_render_first_line [of st cs] by simp
      from open_marker_mono [OF o this] show ?thesis by (simp add: list_render_template_None)
    qed
    then show ?thesis using sr 2(1) [OF None] by simp
  next
    case (Some r)
    obtain g1 g2 g3 g4 g5 rest where r: "r = ((g1, g2, g3, g4, g5), rest)" by (cases r) auto
    have m: "list_render_template (c # cs) = Some ((g1, g2, g3, g4, g5), rest)" using Some r by simp
    obtain body where b: "render_list st (g1, g2, g3, g4, g5) = g1 @ nl # body @ nl # g4"
      using render_list_shape by blast
    have sr: "sub_render st (c # cs) = g1 @ nl # body @ nl # g4 @ rest"
      using sub_render_match [OF m] b by simp
    have "sub_render st (g1 @ nl # body @ nl # g4 @ rest) = render_list st (g1, g2, g3, g4, g5) @ rest"
      by (rule sub_render_match [OF list_render_template_again [OF m]])
    then show ?thesis using sr b by simp
  qed
qed

text \<open>A page whose directive opens in mode \<open>Sectioned\<close> and closes in mode \<open>Alphabetical\<close>.\<close>

definition mismatched_page :: string where
  "mismatched_page =
     join_nl [''{{ListGenBot-ListSectionedStart|X}}'', ''old'', ''{{ListGenBot-ListAlphabeticalEnd}}'']"

lemmas match_defs = list_render_template_def close_marker_def lit_def dot_def

text \<open>
  C1, as stated, fails: the pair is matched with modes \<open>Sectioned\<close> and \<open>Alphabetical\<close>, and
  the pass replaces the body \<open>old\<close> by an empty line, so the span is not left as it was.
\<close>

theorem mismatched_directive_counterexample:
  "first_match mismatched_page =
     Some ([], (''{{ListGenBot-ListSectionedStart|X}}'', ''Sectioned'', ''X'',
                ''{{ListGenBot-ListAlphabeticalEnd}}'', ''Alphabetical''), []) \<and>
   sub_render empty_store mismatched_page =
     join_nl [''{{ListGenBot-ListSectionedStart|X}}'', [], ''{{ListGenBot-ListAlphabeticalEnd}}''] \<and>
   sub_render empty_store mismatched_page \<noteq> mismatched_page"
proof -
  have m: "first_match mismatched_page =
     Some ([], (''{{ListGenBot-ListSectionedStart|X}}'', ''Sectioned'', ''X'',
                ''{{ListGenBot-ListAlphabeticalEnd}}'', ''Alphabetical''), [])"
    by (simp add: mismatched_page_def match_defs)
  then have "sub_render empty_store mismatched_page =
     join_nl [''{{ListGenBot-ListSectionedStart|X}}'', [], ''{{ListGenBot-ListAlphabeticalEnd}}'']"
    by (simp add: sub_render_first_match render_list_def)
  then show ?thesis using m by (simp add: mismatched_page_def)
qed

text \<open>
  C1, amended.  When the leftmost match of a text has different modes in its open and
  close markers (groups 2 and 5), the pass keeps the text before the match, the open
  marker (group 1), the close marker (group 4) and the text after the match, and puts one
  empty line between the two markers in place of whatever stood there.
\<close>

theorem mismatched_directive_body_emptied:
  assumes "first_match doc = Some (before, (g1, g2, g3, g4, g5), rest)"
    and "g2 \<noteq> g5"
  shows "(\<exists>body. doc = before @ g1 @ body @ g4 @ rest) \<and>
         sub_render st doc = before @ g1 @ [nl, nl] @ g4 @ rest"
proof -
  from first_match_Some_D [OF assms(1)] obtain t where t: "doc = before @ t"
    "list_render_template t = Some ((g1, g2, g3, g4, g5), rest)" by blast
  from match_span [OF t(2)] have "\<exists>body. doc = before @ g1 @ body @ g4 @ rest"
    using t(1) by auto
  moreover have "sub_render st doc = before @ g1 @ [nl, nl] @ g4 @ rest"
    using assms by (simp add: sub_render_first_match render_list_mismatch)
  ultimately show ?thesis by blast
qed

definition mismatched_page_in_text :: string where
  "mismatched_page_in_text =
     join_nl [''intro'', ''{{ListGenBot-ListSectionedStart|X}}'', ''old'',
              ''{{ListGenBot-ListAlphabeticalEnd}} tail'', ''outro'']"

text \<open>The hypotheses of the amended C1 hold for the mismatched pair inside other text.\<close>

theorem mismatched_directive_body_emptied_witness:
  "first_match mismatched_page_in_text =
     Some (''intro'' @ [nl], (''{{ListGenBot-ListSectionedStart|X}}'', ''Sectioned'', ''X'',
                ''{{ListGenBot-ListAlphabeticalEnd}}'', ''Alphabetical''), '' tail'' @ [nl] @ ''outro'') \<and>
   ''Sectioned'' \<noteq> ''Alphabetical'' \<and>
   sub_render empty_store mismatched_page_in_text =
     join_nl [''intro'', ''{{ListGenBot-ListSectionedStart|X}}'', [],
              ''{{ListGenBot-ListAlphabeticalEnd}} tail'', ''outro'']"
proof -
  have h1: "first_match mismatched_page_in_text =
     Some (''intro'' @ [nl], (''{{ListGenBot-ListSectionedStart|X}}'', ''Sectioned'', ''X'',
                ''{{ListGenBot-ListAlphabeticalEnd}}'', ''Alphabetical''), '' tail'' @ [nl] @ ''outro'')"
    by (simp add: mismatched_page_in_text_def match_defs)
  have h2: "''Sectioned'' \<noteq> ''Alphabetical''" by simp
  show ?thesis
    using mismatched_directive_body_emptied [OF h1 h2, of empty_store] h1 h2 by simp
qed

text \<open>
  A wiki with the aggregate pages of lists \<open>A\<close> and \<open>B\<close> and a page \<open>P\<close> with one
  well-formed directive for each, their bodies stale.
\<close>

definition two_directives :: string where
  "two_directives =
     join_nl [''{{ListGenBot-ListSectionedStart|A}}'', ''old a'', ''{{ListGenBot-ListSectionedEnd}}'',
              ''between'',
              ''{{ListGenBot-ListSectionedStart|B}}'', ''old b'', ''{{ListGenBot-ListSectionedEnd}}'']"

definition wiki_AB :: store where
  "wiki_AB = empty_store
     (''ListGenBot A'' := join_nl [''==T=='', ''item a''],
      ''ListGenBot B'' := join_nl [''==T=='', ''item b''],
      ''P'' := two_directives)"

lemmas title_defs = find_title_def title_search_def is_eq_def not_eq_def opt_space_def at_end_def

text \<open>
  C5.  The two directives are matched as one: the match runs from the open marker of \<open>A\<close>
  to the close marker of \<open>B\<close>, the last line with a close marker.  The pass replaces all
  of it by the rendering of list \<open>A\<close>; the line \<open>between\<close> and the directive of \<open>B\<close> are
  gone from the page.
\<close>

theorem two_directives_matched_as_one:
  "first_match two_directives =
     Some ([], (''{{ListGenBot-ListSectionedStart|A}}'', ''Sectioned'', ''A'',
                ''{{ListGenBot-ListSectionedEnd}}'', ''Sectioned''), []) \<and>
   sub_render wiki_AB two_directives =
     join_nl [''{{ListGenBot-ListSectionedStart|A}}'', ''===([[T]])==='', ''item a'',
              ''{{ListGenBot-ListSectionedEnd}}'']"
proof -
  have m: "first_match two_directives =
     Some ([], (''{{ListGenBot-ListSectionedStart|A}}'', ''Sectioned'', ''A'',
                ''{{ListGenBot-ListSectionedEnd}}'', ''Sectioned''), [])"
    by (simp add: two_directives_def match_defs)
  have "render_list wiki_AB (''{{ListGenBot-ListSectionedStart|A}}'', ''Sectioned'', ''A'',
                ''{{ListGenBot-ListSectionedEnd}}'', ''Sectioned'') =
     join_nl [''{{ListGenBot-ListSectionedStart|A}}'', ''===([[T]])==='', ''item a'',
              ''{{ListGenBot-ListSectionedEnd}}'']"
    by (simp add: render_list_def wiki_AB_def empty_store_def get_page_text_def strip_eq_def title_defs)
  then show ?thesis using m by (simp add: sub_render_first_match)
qed

section \<open>\<open>main_function\<close> and \<open>run\<close>\<close>

definition stale_page :: string where
  "stale_page =
     join_nl [''{{ListGenBot-ListSectionedStart|A}}'', ''old a'', ''{{ListGenBot-ListSectionedEnd}}'']"

definition wiki_stale :: store where
  "wiki_stale = empty_store
     (''ListGenBot A'' := join_nl [''==T=='', ''item a''],
      ''P'' := stale_page)"

text \<open>
  C2.  The page \<open>P\<close> holds a directive for list \<open>A\<close> with a stale body.  The render pass
  over its text gives a different text, and \<open>main_function\<close> leaves the wiki as it was:
  \<open>page.text\<close> is assigned \<open>new_text\<close> before the two are compared, so \<open>page.save\<close> is never
  reached.
\<close>

theorem rendered_page_not_saved:
  "sub_render wiki_stale (wiki_stale ''P'') =
     join_nl [''{{ListGenBot-ListSectionedStart|A}}'', ''===([[T]])==='', ''item a'',
              ''{{ListGenBot-ListSectionedEnd}}''] \<and>
   sub_render wiki_stale (wiki_stale ''P'') \<noteq> wiki_stale ''P'' \<and>
   main_function ''P'' wiki_stale = wiki_stale"
proof -
  have p: "wiki_stale ''P'' = stale_page" by (simp add: wiki_stale_def)
  have m: "first_match stale_page =
     Some ([], (''{{ListGenBot-ListSectionedStart|A}}'', ''Sectioned'', ''A'',
                ''{{ListGenBot-ListSectionedEnd}}'', ''Sectioned''), [])"
    by (simp add: stale_page_def match_defs)
  have r: "render_list wiki_stale (''{{ListGenBot-ListSectionedStart|A}}'', ''Sectioned'', ''A'',
                ''{{ListGenBot-ListSectionedEnd}}'', ''Sectioned'') =
     join_nl [''{{ListGenBot-ListSectionedStart|A}}'', ''===([[T]])==='', ''item a'',
              ''{{ListGenBot-ListSectionedEnd}}'']"
    by (simp add: render_list_def wiki_stale_def empty_store_def get_page_text_def strip_eq_def title_defs)
  have s: "sub_render wiki_stale stale_page =
     join_nl [''{{ListGenBot-ListSectionedStart|A}}'', ''===([[T]])==='', ''item a'',
              ''{{ListGenBot-ListSectionedEnd}}'']"
    using m r by (simp add: sub_render_first_match)
  have d: "sub_render wiki_stale stale_page \<noteq> stale_page"
    unfolding s by (simp add: stale_page_def)
  have "scan_page ''P'' wiki_stale (get_page_text wiki_stale ''P'') = (None, [], wiki_stale)"
    unfolding get_page_text_def p
    by (simp add: stale_page_def scan_page_def scan_step_def find_list_content_start_def
        list_content_start_def lit_def)
  then have "main_function ''P'' wiki_stale = wiki_stale" by (simp add: main_function_store)
  then show ?thesis unfolding p using s d by simp
qed

text \<open>Two enumerations: a short batch, and a full batch of 25 titles.\<close>

definition short_batch :: "string \<Rightarrow> string list" where
  "short_batch start = [''A'', ''B'']"

definition full_batch :: "string \<Rightarrow> string list" where
  "full_batch start =
     [''Page 01'', ''Page 02'', ''Page 03'', ''Page 04'', ''Page 05'',
      ''Page 06'', ''Page 07'', ''Page 08'', ''Page 09'', ''Page 10'',
      ''Page 11'', ''Page 12'', ''Page 13'', ''Page 14'', ''Page 15'',
      ''Page 16'', ''Page 17'', ''Page 18'', ''Page 19'', ''Page 20'',
      ''Page 21'', ''Page 22'', ''Page 23'', ''Page 24'', ''Page 25'']"

text \<open>
  C9.  After \<open>run\<close>, the reference page (the cursor) holds the empty string when the
  enumeration returned fewer than \<open>PAGES_TO_GO_THROUGH\<close> titles, and the last title of
  the batch when it returned exactly \<open>PAGES_TO_GO_THROUGH\<close>.
\<close>

theorem run_sets_cursor:
  "(length (pages_from (get_page_start reference_page_title st)) < PAGES_TO_GO_THROUGH \<longrightarrow>
      run reference_page_title pages_from st reference_page_title = []) \<and>
   (length (pages_from (get_page_start reference_page_title st)) = PAGES_TO_GO_THROUGH \<longrightarrow>
      run reference_page_title pages_from st reference_page_title =
        last (pages_from (get_page_start reference_page_title st)))"
proof -
  let ?pages = "pages_from (get_page_start reference_page_title st)"
  have cursor: "run reference_page_title pages_from st reference_page_title =
      (if length ?pages < PAGES_TO_GO_THROUGH then []
       else if ?pages = [] then [] else last ?pages)"
    by (simp add: run_cursor Let_def)
  have "?pages \<noteq> []" if "length ?pages = PAGES_TO_GO_THROUGH"
    using that by (auto simp: PAGES_TO_GO_THROUGH_def)
  then show ?thesis using cursor by auto
qed

text \<open>Both cases of C9, on a wiki with no pages: the short batch and the full batch.\<close>

theorem run_sets_cursor_witness:
  "length (short_batch (get_page_start ''Powerpedia:ListGenBotInfo'' empty_store)) < PAGES_TO_GO_THROUGH \<and>
   run ''Powerpedia:ListGenBotInfo'' short_batch empty_store ''Powerpedia:ListGenBotInfo'' = [] \<and>
   length (full_batch (get_page_start ''Powerpedia:ListGenBotInfo'' empty_store)) = PAGES_TO_GO_THROUGH \<and>
   run ''Powerpedia:ListGenBotInfo'' full_batch empty_store ''Powerpedia:ListGenBotInfo'' = ''Page 25''"
proof -
  have h1: "length (short_batch (get_page_start ''Powerpedia:ListGenBotInfo'' empty_store)) < PAGES_TO_GO_THROUGH"
    by (simp add: short_batch_def PAGES_TO_GO_THROUGH_def)
  have h2: "length (full_batch (get_page_start ''Powerpedia:ListGenBotInfo'' empty_store)) = PAGES_TO_GO_THROUGH"
    by (simp add: full_batch_def PAGES_TO_GO_THROUGH_def)
  have l: "last (full_batch (get_page_start ''Powerpedia:ListGenBotInfo'' empty_store)) = ''Page 25''"
    by (simp add: full_batch_def)
  show ?thesis
    using run_sets_cursor [of short_batch "''Powerpedia:ListGenBotInfo''" empty_store]
      run_sets_cursor [of full_batch "''Powerpedia:ListGenBotInfo''" empty_store] h1 h2 l
    by simp
qed

end
